theory Spec2Isabelle
  imports Complex_Main "HOL-Library.Multiset"
begin

section \<open>Memory map diagrams: the region model of generate\_mem\_diagram.py\<close>

text \<open>
  The script is Python 2. Its integers are unbounded (\<open>int\<close>), an omitted address is
  \<open>None\<close> (\<open>int option\<close>), every \<open>raise\<close> is a value \<open>Inl e\<close> of the sum type
  \<open>error + 'a\<close>, and the floats of the geometry are read as real numbers.
\<close>

subsection \<open>Python 2 primitives on optional integers\<close>

text \<open>
  Python 2 orders \<open>None\<close> below every integer and never raises on a comparison;
  arithmetic on \<open>None\<close> raises \<open>TypeError\<close>. An object is true unless it is
  \<open>None\<close> or zero.
\<close>

fun py_lt :: "int option \<Rightarrow> int option \<Rightarrow> bool" where
  "py_lt None None = False"
| "py_lt None (Some b) = True"
| "py_lt (Some a) None = False"
| "py_lt (Some a) (Some b) = (a < b)"

definition py_le :: "int option \<Rightarrow> int option \<Rightarrow> bool" where
  "py_le a b = (a = b \<or> py_lt a b)"

definition py_gt :: "int option \<Rightarrow> int option \<Rightarrow> bool" where
  "py_gt a b = py_lt b a"

definition py_ge :: "int option \<Rightarrow> int option \<Rightarrow> bool" where
  "py_ge a b = py_le b a"

fun truthy :: "int option \<Rightarrow> bool" where
  "truthy None = False"
| "truthy (Some a) = (a \<noteq> 0)"

subsection \<open>Regions\<close>

record MemoryMapNode =
  lo :: "int option"
  hi :: "int option"
  kind :: string
  label :: string
  node_id :: string
  number :: int
  comment :: string
  grow :: bool
  checked :: bool
  uselabels :: "bool option"

text \<open>
  \<open>checked\<close> is the attribute \<open>check_node\<close> sets; \<open>uselabels\<close> is the attribute only
  \<open>BlankRegionNode\<close> sets (\<open>None\<close>: the attribute is absent).
\<close>

datatype error =
    BadAddressRange MemoryMapNode
  | MissingHigh MemoryMapNode
  | MissingLow MemoryMapNode
  | RangesOverlap MemoryMapNode MemoryMapNode
  | NegativeStart MemoryMapNode
  | NegativeEnd MemoryMapNode
  | EndNotGreater MemoryMapNode
  | TypeError
  | ZeroDivisionError
  | IndexError
  | ValueError

fun py_sub :: "int option \<Rightarrow> int option \<Rightarrow> error + int" where
  "py_sub (Some a) (Some b) = Inr (a - b)"
| "py_sub a b = Inl TypeError"

definition startswith :: "string \<Rightarrow> string \<Rightarrow> bool" where
  "startswith s p = (take (length p) s = p)"

definition re_sub_dot :: "string \<Rightarrow> string" where
  "re_sub_dot s = map (\<lambda>c. if c = CHR ''.'' then CHR ''_'' else c) s"

definition vphantom :: "string \<Rightarrow> string" where
  "vphantom p = [CHR 0x5C] @ ''vphantom{'' @ [CHR 0x5C] @ ''textit{'' @ p @ ''}}''"

text \<open>
  \<open>MemoryMapNode.__init__\<close>. The label drawn at random when none is given is the
  argument \<open>rnd\<close>.
\<close>

definition MemoryMapNode_init ::
  "string \<Rightarrow> int option \<Rightarrow> int option \<Rightarrow> string \<Rightarrow> string \<Rightarrow> string \<Rightarrow> int \<Rightarrow> MemoryMapNode" where
  "MemoryMapNode_init rnd l h k lab com num =
     (let lab' = (if lab = [] then rnd else lab) in
      \<lparr> lo = l, hi = h, kind = k, label = lab', node_id = re_sub_dot lab',
        number = num, comment = vphantom ''('' @ com @ vphantom '')'',
        grow = (startswith k ''grow down '' \<or> startswith k ''grow up ''),
        checked = False, uselabels = None \<rparr>)"

definition BlankRegionNode :: "string \<Rightarrow> int option \<Rightarrow> int option \<Rightarrow> MemoryMapNode" where
  "BlankRegionNode rnd l h =
     (MemoryMapNode_init rnd l h ''rempty'' [] [] (- 1)) \<lparr> uselabels := Some False \<rparr>"

definition check_range :: "MemoryMapNode \<Rightarrow> bool \<Rightarrow> error + unit" where
  "check_range self reverse =
     (if lo self \<noteq> None \<and> hi self \<noteq> None then
        (if \<not> py_gt (hi self) (lo self) then Inl (BadAddressRange self) else Inr ())
      else if reverse then
        (if hi self = None then Inl (MissingHigh self) else Inr ())
      else
        (if lo self = None then Inl (MissingLow self) else Inr ()))"

definition check_range_overlap :: "MemoryMapNode \<Rightarrow> MemoryMapNode \<Rightarrow> bool \<Rightarrow> error + unit" where
  "check_range_overlap self other reverse =
     (case check_range self reverse of Inl e \<Rightarrow> Inl e | Inr _ \<Rightarrow>
      case check_range other reverse of Inl e \<Rightarrow> Inl e | Inr _ \<Rightarrow>
      if \<not> reverse then
        (if lo self = lo other then Inl (RangesOverlap self other)
         else if py_lt (lo self) (lo other) then
           (if hi self \<noteq> None \<and> \<not> py_le (hi self) (lo other)
            then Inl (RangesOverlap self other) else Inr ())
         else
           (if hi other \<noteq> None \<and> \<not> py_le (hi other) (lo self)
            then Inl (RangesOverlap self other) else Inr ()))
      else
        (if hi self = hi other then Inl (RangesOverlap self other)
         else if py_lt (hi self) (hi other) then
           (if lo other \<noteq> None \<and> \<not> py_ge (lo other) (hi self)
            then Inl (RangesOverlap self other) else Inr ())
         else
           (if lo self \<noteq> None \<and> \<not> py_ge (lo self) (hi other)
            then Inl (RangesOverlap self other) else Inr ())))"

definition compareascend :: "MemoryMapNode \<Rightarrow> MemoryMapNode \<Rightarrow> error + int" where
  "compareascend self other =
     (case check_range_overlap self other False of Inl e \<Rightarrow> Inl e
      | Inr _ \<Rightarrow> py_sub (lo self) (lo other))"

definition comparedescend :: "MemoryMapNode \<Rightarrow> MemoryMapNode \<Rightarrow> error + int" where
  "comparedescend self other =
     (case check_range_overlap self other True of Inl e \<Rightarrow> Inl e
      | Inr _ \<Rightarrow> py_sub (hi other) (hi self))"

definition check_node :: "MemoryMapNode \<Rightarrow> bool \<Rightarrow> error + MemoryMapNode" where
  "check_node self reverse =
     (if reverse \<and> hi self = None then Inl (MissingHigh self)
      else if \<not> reverse \<and> lo self = None then Inl (MissingLow self)
      else if lo self \<noteq> None \<and> py_lt (lo self) (Some 0) then Inl (NegativeStart self)
      else if hi self \<noteq> None \<and> py_lt (hi self) (Some 0) then Inl (NegativeEnd self)
      else if (lo self \<noteq> None \<and> hi self \<noteq> None) \<and> py_ge (lo self) (hi self)
        then Inl (EndNotGreater self)
      else Inr (self \<lparr> checked := True \<rparr>))"

subsection \<open>Geometry\<close>

definition minheight :: real where
  "minheight = 13 / 10"

text \<open>
  \<open>MemoryMapNodeTemplate.calculate_height\<close>: \<open>float(node.hi - node.lo)\<close> raises
  \<open>TypeError\<close> on a missing endpoint and the division raises on a zero span.
\<close>

definition calculate_height ::
  "MemoryMapNode \<Rightarrow> int \<Rightarrow> real \<Rightarrow> bool \<Rightarrow> real \<Rightarrow> error + real" where
  "calculate_height node memrange maxheight fixed_height additional =
     (if fixed_height then Inr (minheight + 2 / 10)
      else case py_sub (hi node) (lo node) of Inl e \<Rightarrow> Inl e
      | Inr w \<Rightarrow>
          if memrange = 0 then Inl ZeroDivisionError
          else Inr (max minheight
                 ((additional + (real_of_int w / real_of_int memrange) * maxheight) * (5 / 10))))"

text \<open>The first two statements of \<open>populate_template\<close>: the height it gives the box.\<close>

definition populate_template_minheight ::
  "MemoryMapNode \<Rightarrow> int \<Rightarrow> real \<Rightarrow> bool \<Rightarrow> error + real" where
  "populate_template_minheight node memrange maxheight fixed_height =
     (let additional = (if grow node then 4 else 0) in
      calculate_height node memrange maxheight fixed_height additional)"

text \<open>
  The statements of \<open>populate_template\<close> that compute \<open>typeattrs\<close> and overwrite
  \<open>node.kind\<close> with it (the arrow decoration \<open>extras\<close> is left out).
\<close>

definition is_space :: "char \<Rightarrow> bool" where
  "is_space c = (c \<in> set [CHR 0x09, CHR 0x0A, CHR 0x0B, CHR 0x0C, CHR 0x0D, CHR 0x20])"

definition strip :: "string \<Rightarrow> string" where
  "strip s = rev (dropWhile is_space (rev (dropWhile is_space s)))"

definition populate_template_kind :: "MemoryMapNode \<Rightarrow> bool \<Rightarrow> MemoryMapNode" where
  "populate_template_kind node reverse =
     (let typeattrs0 = '' '';
          (typeattrs1, kind1) =
            (if startswith (kind node) ''grow down '' then
               (typeattrs0 @ ''very thick, '' @ (if \<not> reverse then ''grow up,'' else ''grow down,''),
                strip (drop (length ''grow down'') (kind node)))
             else (typeattrs0, kind node));
          typeattrs2 =
            (if startswith kind1 ''grow up '' then
               typeattrs1 @ (if \<not> reverse then ''grow down,'' else ''grow up,'')
             else typeattrs1 @ kind1)
      in node \<lparr> kind := typeattrs2 \<rparr>)"

subsection \<open>Sorting with a comparison function that may raise\<close>

text \<open>
  \<open>sorted(xs, cmp=c)\<close> is CPython 2's \<open>list.sort\<close>: \<open>islt\<close> calls \<open>c\<close> and reads
  a negative result as "less"; an exception of \<open>c\<close> aborts the sort. On a list of
  fewer than 64 elements \<open>list.sort\<close> takes the first run (\<open>count_run\<close>, reversed
  when strictly descending) and inserts every later element by binary search
  (\<open>binarysort\<close>). Longer lists, which CPython cuts into several such runs and
  merges, are sorted here by the same insertions. CPython 2 also rejects a comparison
  result that is a \<open>long\<close>; addresses are taken to lie in the range of the machine
  integers, where the differences the comparison functions return are plain \<open>int\<close>s.
\<close>

definition islt :: "('a \<Rightarrow> 'a \<Rightarrow> error + int) \<Rightarrow> 'a \<Rightarrow> 'a \<Rightarrow> error + bool" where
  "islt c x y = (case c x y of Inl e \<Rightarrow> Inl e | Inr v \<Rightarrow> Inr (v < 0))"

fun run_ascending :: "('a \<Rightarrow> 'a \<Rightarrow> error + int) \<Rightarrow> 'a \<Rightarrow> 'a list \<Rightarrow> nat \<Rightarrow> error + nat" where
  "run_ascending c prev [] n = Inr n"
| "run_ascending c prev (x # xs) n =
     (case islt c x prev of Inl e \<Rightarrow> Inl e
      | Inr b \<Rightarrow> if b then Inr n else run_ascending c x xs (Suc n))"

fun run_descending :: "('a \<Rightarrow> 'a \<Rightarrow> error + int) \<Rightarrow> 'a \<Rightarrow> 'a list \<Rightarrow> nat \<Rightarrow> error + nat" where
  "run_descending c prev [] n = Inr n"
| "run_descending c prev (x # xs) n =
     (case islt c x prev of Inl e \<Rightarrow> Inl e
      | Inr b \<Rightarrow> if b then run_descending c x xs (Suc n) else Inr n)"

definition count_run :: "('a \<Rightarrow> 'a \<Rightarrow> error + int) \<Rightarrow> 'a list \<Rightarrow> error + (nat \<times> bool)" where
  "count_run c xs =
     (case xs of
        [] \<Rightarrow> Inr (0, False)
      | [x] \<Rightarrow> Inr (1, False)
      | x # y # ys \<Rightarrow>
          (case islt c y x of Inl e \<Rightarrow> Inl e
           | Inr b \<Rightarrow>
               if b then
                 (case run_descending c y ys 2 of Inl e \<Rightarrow> Inl e | Inr n \<Rightarrow> Inr (n, True))
               else
                 (case run_ascending c y ys 2 of Inl e \<Rightarrow> Inl e | Inr n \<Rightarrow> Inr (n, False))))"

text \<open>
  The binary search of \<open>binarysort\<close> for the place of \<open>pivot\<close> in the sorted prefix
  \<open>xs\<close>, between \<open>l\<close> and \<open>r\<close>; the prefix is never empty, so the loop body runs at
  least once, as the \<open>do ... while\<close> of the C code does.
\<close>

function binarysearch ::
  "('a \<Rightarrow> 'a \<Rightarrow> error + int) \<Rightarrow> 'a \<Rightarrow> 'a list \<Rightarrow> nat \<Rightarrow> nat \<Rightarrow> error + nat" where
  "binarysearch c pivot xs l r =
     (if l < r then
        (case islt c pivot (xs ! (l + (r - l) div 2)) of Inl e \<Rightarrow> Inl e
         | Inr b \<Rightarrow>
             if b then binarysearch c pivot xs l (l + (r - l) div 2)
             else binarysearch c pivot xs (l + (r - l) div 2 + 1) r)
      else Inr l)"
  by pat_completeness auto
termination
  by (relation "measure (\<lambda>(c, pivot, xs, l, r). r - l)") auto

declare binarysearch.simps [simp del]

fun binarysort :: "('a \<Rightarrow> 'a \<Rightarrow> error + int) \<Rightarrow> 'a list \<Rightarrow> 'a list \<Rightarrow> error + 'a list" where
  "binarysort c pre [] = Inr pre"
| "binarysort c pre (pivot # rest) =
     (case binarysearch c pivot pre 0 (length pre) of Inl e \<Rightarrow> Inl e
      | Inr l \<Rightarrow> binarysort c (take l pre @ pivot # drop l pre) rest)"

definition sorted_cmp :: "('a \<Rightarrow> 'a \<Rightarrow> error + int) \<Rightarrow> 'a list \<Rightarrow> error + 'a list" where
  "sorted_cmp c xs =
     (if length xs < 2 then Inr xs
      else case count_run c xs of Inl e \<Rightarrow> Inl e
      | Inr (n, descending) \<Rightarrow>
          binarysort c (if descending then rev (take n xs) else take n xs) (drop n xs))"

text \<open>
  \<open>placed c a b\<close>: a direct comparison has put \<open>a\<close> before \<open>b\<close>, either
  \<open>islt(b, a)\<close> was false or \<open>islt(a, b)\<close> was true, and did not raise.
\<close>

definition placed :: "('a \<Rightarrow> 'a \<Rightarrow> error + int) \<Rightarrow> 'a \<Rightarrow> 'a \<Rightarrow> bool" where
  "placed c a b = (islt c b a = Inr False \<or> islt c a b = Inr True)"

subsection \<open>The layout resolver\<close>

fun check_nodes :: "MemoryMapNode list \<Rightarrow> bool \<Rightarrow> error + MemoryMapNode list" where
  "check_nodes [] reverse = Inr []"
| "check_nodes (n # ns) reverse =
     (case check_node n reverse of Inl e \<Rightarrow> Inl e
      | Inr n' \<Rightarrow> (case check_nodes ns reverse of Inl e \<Rightarrow> Inl e | Inr ns' \<Rightarrow> Inr (n' # ns')))"

text \<open>
  The body of the loop \<open>for i in range(1, len(nodes))\<close> of \<open>sort_and_check_nodes\<close>
  for the pair \<open>last\<close> (here \<open>last_n\<close>), \<open>n\<close>: the blank regions it appends, none
  or one. \<open>r\<close> is the random label the blank region draws.
\<close>

definition gap_at :: "bool \<Rightarrow> string \<Rightarrow> MemoryMapNode \<Rightarrow> MemoryMapNode \<Rightarrow> MemoryMapNode list" where
  "gap_at reverse r last_n n =
     (if \<not> reverse then
        (case hi last_n of None \<Rightarrow> []
         | Some h \<Rightarrow>
             if truthy (hi last_n) \<and> py_gt (lo n) (Some (h + 1))
             then [BlankRegionNode r (hi last_n) (lo n)] else [])
      else
        (case lo last_n of None \<Rightarrow> []
         | Some l \<Rightarrow>
             if truthy (lo last_n) \<and> py_lt (hi n) (Some (l - 1))
             then [BlankRegionNode r (hi n) (lo last_n)] else []))"

text \<open>
  The loop itself: the value is the list of blank regions it appends, \<open>rnd i\<close>
  being the random label of the blank region made at index \<open>i\<close>.
\<close>

fun gap_loop ::
  "bool \<Rightarrow> (nat \<Rightarrow> string) \<Rightarrow> nat \<Rightarrow> MemoryMapNode \<Rightarrow> MemoryMapNode list \<Rightarrow> MemoryMapNode list" where
  "gap_loop reverse rnd i last_n [] = []"
| "gap_loop reverse rnd i last_n (n # ns) =
     gap_at reverse (rnd i) last_n n @ gap_loop reverse rnd (Suc i) n ns"

text \<open>The loop of \<open>fill_gaps\<close>, from the region \<open>last\<close> (here \<open>last_n\<close>) on.\<close>

fun fill_gaps_loop :: "bool \<Rightarrow> MemoryMapNode \<Rightarrow> MemoryMapNode list \<Rightarrow> error + MemoryMapNode list" where
  "fill_gaps_loop reverse last_n [] = Inr [last_n]"
| "fill_gaps_loop reverse last_n (n # ns) =
     (if \<not> reverse then
        (if hi last_n = None then
           (case py_sub (lo n) (Some 1) of Inl e \<Rightarrow> Inl e
            | Inr v \<Rightarrow>
                (case fill_gaps_loop reverse n ns of Inl e \<Rightarrow> Inl e
                 | Inr r \<Rightarrow> Inr (last_n \<lparr> hi := Some v \<rparr> # r)))
         else
           (case fill_gaps_loop reverse n ns of Inl e \<Rightarrow> Inl e | Inr r \<Rightarrow> Inr (last_n # r)))
      else
        (if lo n = None then
           (case py_sub (hi last_n) (Some 1) of Inl e \<Rightarrow> Inl e
            | Inr v \<Rightarrow>
                (case fill_gaps_loop reverse (n \<lparr> lo := Some v \<rparr>) ns of Inl e \<Rightarrow> Inl e
                 | Inr r \<Rightarrow> Inr (last_n # r)))
         else
           (case fill_gaps_loop reverse n ns of Inl e \<Rightarrow> Inl e | Inr r \<Rightarrow> Inr (last_n # r))))"

definition fill_gaps :: "MemoryMapNode list \<Rightarrow> bool \<Rightarrow> error + MemoryMapNode list" where
  "fill_gaps ns reverse = (case ns of [] \<Rightarrow> Inr [] | last_n # rest \<Rightarrow> fill_gaps_loop reverse last_n rest)"

definition node_cmp :: "bool \<Rightarrow> MemoryMapNode \<Rightarrow> MemoryMapNode \<Rightarrow> error + int" where
  "node_cmp reverse = (if \<not> reverse then compareascend else comparedescend)"

definition sort_and_check_nodes ::
  "(nat \<Rightarrow> string) \<Rightarrow> MemoryMapNode list \<Rightarrow> bool \<Rightarrow> error + MemoryMapNode list" where
  "sort_and_check_nodes rnd ns reverse =
     (case sorted_cmp (node_cmp reverse) ns of Inl e \<Rightarrow> Inl e
      | Inr nodes1 \<Rightarrow>
     (case check_nodes nodes1 reverse of Inl e \<Rightarrow> Inl e
      | Inr nodes2 \<Rightarrow>
     (case sorted_cmp (node_cmp reverse)
             (nodes2 @ (case nodes2 of [] \<Rightarrow> [] | last_n # rest \<Rightarrow> gap_loop reverse rnd 1 last_n rest))
      of Inl e \<Rightarrow> Inl e
      | Inr nodes3 \<Rightarrow> fill_gaps nodes3 reverse)))"

text \<open>
  Two relations for stating what a successful sort has established. \<open>before_asc a b\<close>:
  both regions pass \<open>check_range\<close> in ascending mode, \<open>a\<close> starts below \<open>b\<close> and,
  when it has a \<open>hi\<close>, ends no later than \<open>b\<close> starts. \<open>before_desc\<close> is its mirror
  image for descending mode.
\<close>

definition before_asc :: "MemoryMapNode \<Rightarrow> MemoryMapNode \<Rightarrow> bool" where
  "before_asc a b =
     (\<exists>x y. lo a = Some x \<and> lo b = Some y \<and> x < y
        \<and> (\<forall>h. hi a = Some h \<longrightarrow> x < h \<and> h \<le> y)
        \<and> (\<forall>h. hi b = Some h \<longrightarrow> y < h))"

definition before_desc :: "MemoryMapNode \<Rightarrow> MemoryMapNode \<Rightarrow> bool" where
  "before_desc a b =
     (\<exists>x y. hi a = Some x \<and> hi b = Some y \<and> y < x
        \<and> (\<forall>l. lo a = Some l \<longrightarrow> l < x \<and> y \<le> l)
        \<and> (\<forall>l. lo b = Some l \<longrightarrow> l < y))"

text \<open>
  The sorted regions with each blank region of \<open>gap_loop\<close> put right after the
  region it follows: the order the second sort is shown to produce.
\<close>

fun weave ::
  "bool \<Rightarrow> (nat \<Rightarrow> string) \<Rightarrow> nat \<Rightarrow> MemoryMapNode \<Rightarrow> MemoryMapNode list \<Rightarrow> MemoryMapNode list" where
  "weave reverse rnd i last_n [] = [last_n]"
| "weave reverse rnd i last_n (n # ns) =
     last_n # gap_at reverse (rnd i) last_n n @ weave reverse rnd (Suc i) n ns"

text \<open>
  Adjacent regions that leave no gap: in ascending mode the second starts where the
  first ends or one address after, in descending mode the first starts where the
  second ends or one address after.
\<close>

definition joined_asc :: "MemoryMapNode \<Rightarrow> MemoryMapNode \<Rightarrow> bool" where
  "joined_asc a b = (\<exists>h y. hi a = Some h \<and> lo b = Some y \<and> (y = h \<or> y = h + 1))"

definition joined_desc :: "MemoryMapNode \<Rightarrow> MemoryMapNode \<Rightarrow> bool" where
  "joined_desc a b = (\<exists>l y. lo a = Some l \<and> hi b = Some y \<and> (l = y \<or> l = y + 1))"

subsection \<open>The record decoder\<close>

datatype MemoryMapLabel =
    MemoryMapRegionLabel string string int
  | MemoryMapMultiRegionLabel string string string int

datatype MemoryMapConfig = MemoryMapConfig (key: string) (val: string) (cnumber: int)

record MemoryMapCSVParser =
  nodes :: "MemoryMapNode list"
  labels :: "MemoryMapLabel list"
  config :: "string \<rightharpoonup> string"

definition item :: "'a list \<Rightarrow> nat \<Rightarrow> error + 'a" where
  "item xs k = (if k < length xs then Inr (xs ! k) else Inl IndexError)"

fun join :: "string \<Rightarrow> string list \<Rightarrow> string" where
  "join sep [] = []"
| "join sep [x] = x"
| "join sep (x # y # ys) = x @ sep @ join sep (y # ys)"

text \<open>
  \<open>None if s.strip() == '' else int(s.strip(), 0)\<close>; the builtin \<open>int(\<cdot>, 0)\<close> is the
  parameter \<open>pint\<close>, \<open>None\<close> where it raises \<open>ValueError\<close>.
\<close>

definition addr_from_csv :: "(string \<Rightarrow> int option) \<Rightarrow> string \<Rightarrow> error + int option" where
  "addr_from_csv pint s =
     (if strip s = [] then Inr None
      else case pint (strip s) of None \<Rightarrow> Inl ValueError | Some v \<Rightarrow> Inr (Some v))"

definition MemoryMapNode_from_csv ::
  "(string \<Rightarrow> int option) \<Rightarrow> string \<Rightarrow> string list \<Rightarrow> int \<Rightarrow> error + MemoryMapNode" where
  "MemoryMapNode_from_csv pint rnd row lineno =
     (case item row 2 of Inl e \<Rightarrow> Inl e | Inr r2 \<Rightarrow>
      case addr_from_csv pint r2 of Inl e \<Rightarrow> Inl e | Inr l \<Rightarrow>
      case item row 3 of Inl e \<Rightarrow> Inl e | Inr r3 \<Rightarrow>
      case addr_from_csv pint r3 of Inl e \<Rightarrow> Inl e | Inr h \<Rightarrow>
      case item row 1 of Inl e \<Rightarrow> Inl e | Inr r1 \<Rightarrow>
      case item row 4 of Inl e \<Rightarrow> Inl e | Inr r4 \<Rightarrow>
      Inr (MemoryMapNode_init rnd l h (strip r1) (strip r4) (join '','' (drop 5 row)) lineno))"

definition MemoryMapRegionLabel_from_csv :: "string list \<Rightarrow> int \<Rightarrow> error + MemoryMapLabel" where
  "MemoryMapRegionLabel_from_csv row lineno =
     (case item row 1 of Inl e \<Rightarrow> Inl e
      | Inr r1 \<Rightarrow> Inr (MemoryMapRegionLabel (strip r1) (join '','' (drop 2 row)) lineno))"

definition MemoryMapMultiRegionLabel_from_csv :: "string list \<Rightarrow> int \<Rightarrow> error + MemoryMapLabel" where
  "MemoryMapMultiRegionLabel_from_csv row lineno =
     (case item row 1 of Inl e \<Rightarrow> Inl e | Inr r1 \<Rightarrow>
      case item row 2 of Inl e \<Rightarrow> Inl e | Inr r2 \<Rightarrow>
      Inr (MemoryMapMultiRegionLabel (strip r1) (strip r2) (join '','' (drop 3 row)) lineno))"

definition MemoryMapConfig_from_csv :: "string list \<Rightarrow> int \<Rightarrow> error + MemoryMapConfig" where
  "MemoryMapConfig_from_csv row lineno =
     (case item row 1 of Inl e \<Rightarrow> Inl e
      | Inr r1 \<Rightarrow> Inr (MemoryMapConfig (strip r1) (join '','' (drop 2 row)) lineno))"

text \<open>
  One turn of the loop of \<open>MemoryMapCSVParser.parse\<close> on the row numbered \<open>i\<close>
  (the rows are what \<open>csv.reader\<close> yields: lists of strings), without the final
  \<open>i += 1\<close>, which \<open>parse_rows\<close> does.
\<close>

definition parse_row ::
  "(string \<Rightarrow> int option) \<Rightarrow> (nat \<Rightarrow> string) \<Rightarrow> MemoryMapCSVParser \<Rightarrow> nat \<Rightarrow> string list
     \<Rightarrow> error + MemoryMapCSVParser" where
  "parse_row pint rnd p i row =
     (if row \<noteq> [] \<and> strip (hd row) = ''node'' then
        (case MemoryMapNode_from_csv pint (rnd i) row (int i) of Inl e \<Rightarrow> Inl e
         | Inr n \<Rightarrow> Inr (p \<lparr> nodes := nodes p @ [n] \<rparr>))
      else if row \<noteq> [] \<and> strip (hd row) = ''regionlabel'' then
        (case MemoryMapRegionLabel_from_csv row (int i) of Inl e \<Rightarrow> Inl e
         | Inr l \<Rightarrow> Inr (p \<lparr> labels := labels p @ [l] \<rparr>))
      else if row \<noteq> [] \<and> strip (hd row) = ''multiregionlabel'' then
        (case MemoryMapMultiRegionLabel_from_csv row (int i) of Inl e \<Rightarrow> Inl e
         | Inr l \<Rightarrow> Inr (p \<lparr> labels := labels p @ [l] \<rparr>))
      else if row \<noteq> [] \<and> strip (hd row) = ''config'' then
        (case MemoryMapConfig_from_csv row (int i) of Inl e \<Rightarrow> Inl e
         | Inr c \<Rightarrow> Inr (p \<lparr> config := (config p)(key c \<mapsto> val c) \<rparr>))
      else Inr p)"

fun parse_rows ::
  "(string \<Rightarrow> int option) \<Rightarrow> (nat \<Rightarrow> string) \<Rightarrow> MemoryMapCSVParser \<Rightarrow> nat \<Rightarrow> string list list
     \<Rightarrow> error + (MemoryMapCSVParser \<times> nat)" where
  "parse_rows pint rnd p i [] = Inr (p, i)"
| "parse_rows pint rnd p i (row # rows) =
     (case parse_row pint rnd p i row of Inl e \<Rightarrow> Inl e
      | Inr p' \<Rightarrow> parse_rows pint rnd p' (Suc i) rows)"

definition parse ::
  "(string \<Rightarrow> int option) \<Rightarrow> (nat \<Rightarrow> string) \<Rightarrow> string list list \<Rightarrow> error + (MemoryMapCSVParser \<times> nat)" where
  "parse pint rnd rows = parse_rows pint rnd \<lparr> nodes = [], labels = [], config = Map.empty \<rparr> 0 rows"

subsection \<open>Example regions\<close>

text \<open>
  The regions of the scenarios: \<open>[0x0, 0x10)\<close>, \<open>[0x20, 0x30)\<close>, \<open>[0x11, 0x20)\<close>,
  a region from 0 with no \<open>hi\<close>, a region up to \<open>0x30\<close> with no \<open>lo\<close>,
  \<open>[0x28, 0x30)\<close> and a region up to \<open>0x20\<close> with no \<open>lo\<close>; \<open>blank_label\<close> is the
  label every blank region draws in the examples.
\<close>

definition region_a :: MemoryMapNode where
  "region_a = MemoryMapNode_init [] (Some 0) (Some 16) ''regular'' ''a'' [] 0"

definition region_b :: MemoryMapNode where
  "region_b = MemoryMapNode_init [] (Some 32) (Some 48) ''regular'' ''b'' [] 1"

definition region_c :: MemoryMapNode where
  "region_c = MemoryMapNode_init [] (Some 17) (Some 32) ''regular'' ''c'' [] 1"

definition region_open :: MemoryMapNode where
  "region_open = MemoryMapNode_init [] (Some 0) None ''regular'' ''o'' [] 0"

definition region_top :: MemoryMapNode where
  "region_top = MemoryMapNode_init [] None (Some 48) ''regular'' ''t'' [] 0"

definition region_d :: MemoryMapNode where
  "region_d = MemoryMapNode_init [] (Some 40) (Some 48) ''regular'' ''d'' [] 0"

definition region_low :: MemoryMapNode where
  "region_low = MemoryMapNode_init [] None (Some 32) ''regular'' ''l'' [] 1"

definition blank_label :: "nat \<Rightarrow> string" where
  "blank_label i = ''BLANK''"

section \<open>Properties\<close>

subsection \<open>Basic facts about the checks\<close>

lemma py_lt_Some [simp]: "py_lt x (Some b) = (case x of None \<Rightarrow> True | Some a \<Rightarrow> a < b)"
  by (cases x) auto

lemma MemoryMapNode_init_sel [simp]:
  "lo (MemoryMapNode_init rnd l h k lab com num) = l"
  "hi (MemoryMapNode_init rnd l h k lab com num) = h"
  "kind (MemoryMapNode_init rnd l h k lab com num) = k"
  "number (MemoryMapNode_init rnd l h k lab com num) = num"
  "grow (MemoryMapNode_init rnd l h k lab com num)
     = (startswith k ''grow down '' \<or> startswith k ''grow up '')"
  "label (MemoryMapNode_init rnd l h k lab com num) = (if lab = [] then rnd else lab)"
  by (simp_all add: MemoryMapNode_init_def Let_def)

lemma BlankRegionNode_sel [simp]:
  "lo (BlankRegionNode rnd l h) = l"
  "hi (BlankRegionNode rnd l h) = h"
  "kind (BlankRegionNode rnd l h) = ''rempty''"
  "uselabels (BlankRegionNode rnd l h) = Some False"
  by (simp_all add: BlankRegionNode_def)

lemma check_range_asc:
  "check_range n False = Inr () \<longleftrightarrow> (\<exists>l. lo n = Some l \<and> (\<forall>h. hi n = Some h \<longrightarrow> l < h))"
  by (cases "lo n"; cases "hi n") (auto simp: check_range_def py_gt_def)

lemma check_range_desc:
  "check_range n True = Inr () \<longleftrightarrow> (\<exists>h. hi n = Some h \<and> (\<forall>l. lo n = Some l \<longrightarrow> l < h))"
  by (cases "lo n"; cases "hi n") (auto simp: check_range_def py_gt_def)

lemma check_range_overlap_asc:
  "check_range_overlap a b False = Inr () \<longleftrightarrow>
     check_range a False = Inr () \<and> check_range b False = Inr () \<and>
     (\<exists>x y. lo a = Some x \<and> lo b = Some y \<and> x \<noteq> y \<and>
        (x < y \<longrightarrow> (\<forall>h. hi a = Some h \<longrightarrow> h \<le> y)) \<and>
        (y < x \<longrightarrow> (\<forall>h. hi b = Some h \<longrightarrow> h \<le> x)))"
  apply (cases "check_range a False"; cases "check_range b False")
     apply (simp_all add: check_range_overlap_def)
  apply (cases "lo a"; cases "lo b"; cases "hi a"; cases "hi b")
                 apply (auto simp: check_range_asc py_le_def)
  done

lemma check_range_overlap_desc:
  "check_range_overlap a b True = Inr () \<longleftrightarrow>
     check_range a True = Inr () \<and> check_range b True = Inr () \<and>
     (\<exists>x y. hi a = Some x \<and> hi b = Some y \<and> x \<noteq> y \<and>
        (x < y \<longrightarrow> (\<forall>l. lo b = Some l \<longrightarrow> x \<le> l)) \<and>
        (y < x \<longrightarrow> (\<forall>l. lo a = Some l \<longrightarrow> y \<le> l)))"
  apply (cases "check_range a True"; cases "check_range b True")
     apply (simp_all add: check_range_overlap_def)
  apply (cases "lo a"; cases "lo b"; cases "hi a"; cases "hi b")
                 apply (auto simp: check_range_desc py_le_def py_ge_def)
  done

lemma compareascend_Inr:
  "compareascend a b = Inr v \<longleftrightarrow>
     check_range_overlap a b False = Inr () \<and> (\<exists>x y. lo a = Some x \<and> lo b = Some y \<and> v = x - y)"
  by (cases "check_range_overlap a b False"; cases "lo a"; cases "lo b")
     (auto simp: compareascend_def)

lemma comparedescend_Inr:
  "comparedescend a b = Inr v \<longleftrightarrow>
     check_range_overlap a b True = Inr () \<and> (\<exists>x y. hi a = Some x \<and> hi b = Some y \<and> v = y - x)"
  by (cases "check_range_overlap a b True"; cases "hi a"; cases "hi b")
     (auto simp: comparedescend_def)


subsection \<open>The sort: a permutation whose neighbours were compared\<close>

lemma run_ascending_placed:
  "run_ascending c prev xs n = Inr m \<Longrightarrow>
     n \<le> m \<and> successively (placed c) (prev # take (m - n) xs)"
proof (induction xs arbitrary: prev n)
  case Nil
  then show ?case by simp
next
  case (Cons x xs)
  from Cons.prems obtain b where b: "islt c x prev = Inr b"
    by (cases "islt c x prev") auto
  show ?case
  proof (cases b)
    case True
    with Cons.prems b show ?thesis by simp
  next
    case False
    with Cons.prems b have r: "run_ascending c x xs (Suc n) = Inr m" by simp
    from Cons.IH[OF r] have "Suc n \<le> m" and s: "successively (placed c) (x # take (m - Suc n) xs)"
      by auto
    moreover have "placed c prev x" using b False by (simp add: placed_def)
    moreover have "take (m - n) (x # xs) = x # take (m - Suc n) xs"
      using \<open>Suc n \<le> m\<close> by (simp add: take_Cons')
    ultimately show ?thesis by simp
  qed
qed

lemma run_descending_placed:
  "run_descending c prev xs n = Inr m \<Longrightarrow>
     n \<le> m \<and> successively (\<lambda>a b. placed c b a) (prev # take (m - n) xs)"
proof (induction xs arbitrary: prev n)
  case Nil
  then show ?case by simp
next
  case (Cons x xs)
  from Cons.prems obtain b where b: "islt c x prev = Inr b"
    by (cases "islt c x prev") auto
  show ?case
  proof (cases b)
    case False
    with Cons.prems b show ?thesis by simp
  next
    case True
    with Cons.prems b have r: "run_descending c x xs (Suc n) = Inr m" by simp
    from Cons.IH[OF r] have "Suc n \<le> m"
      and s: "successively (\<lambda>a b. placed c b a) (x # take (m - Suc n) xs)"
      by auto
    moreover have "placed c x prev" using b True by (simp add: placed_def)
    moreover have "take (m - n) (x # xs) = x # take (m - Suc n) xs"
      using \<open>Suc n \<le> m\<close> by (simp add: take_Cons')
    ultimately show ?thesis by simp
  qed
qed

lemma count_run_placed:
  assumes "count_run c xs = Inr (n, d)"
  shows "successively (placed c) (if d then rev (take n xs) else take n xs)"
proof (cases xs)
  case Nil
  then show ?thesis by simp
next
  case (Cons x ys)
  note xs = this
  show ?thesis
  proof (cases ys)
    case Nil
    with xs assms show ?thesis by (auto simp: count_run_def)
  next
    case (Cons y zs)
    from assms xs Cons obtain b where b: "islt c y x = Inr b"
      by (cases "islt c y x") (auto simp: count_run_def)
    show ?thesis
    proof (cases b)
      case True
      with assms xs Cons b have r: "run_descending c y zs 2 = Inr n" and d: "d"
        by (auto simp: count_run_def split: sum.splits)
      from run_descending_placed[OF r] have "2 \<le> n"
        and s: "successively (\<lambda>a b. placed c b a) (y # take (n - 2) zs)" by auto
      have t: "take n xs = x # y # take (n - 2) zs"
        using \<open>2 \<le> n\<close> xs Cons by (cases n; cases "n - 1") auto
      have "placed c y x" using b True by (simp add: placed_def)
      with s t have "successively (\<lambda>a b. placed c b a) (take n xs)" by simp
      then have "successively (placed c) (rev (take n xs))" by (simp only: successively_rev)
      with d show ?thesis by simp
    next
      case False
      with assms xs Cons b have r: "run_ascending c y zs 2 = Inr n" and d: "\<not> d"
        by (auto simp: count_run_def split: sum.splits)
      from run_ascending_placed[OF r] have "2 \<le> n"
        and s: "successively (placed c) (y # take (n - 2) zs)" by auto
      have t: "take n xs = x # y # take (n - 2) zs"
        using \<open>2 \<le> n\<close> xs Cons by (cases n; cases "n - 1") auto
      have "placed c x y" using b False by (simp add: placed_def)
      with s t d show ?thesis by simp
    qed
  qed
qed

lemma binarysearch_placed:
  "binarysearch c pivot xs l r = Inr k \<Longrightarrow> l \<le> r \<Longrightarrow> r \<le> length xs \<Longrightarrow>
   (0 < l \<longrightarrow> islt c pivot (xs ! (l - 1)) = Inr False) \<Longrightarrow>
   (r < length xs \<longrightarrow> islt c pivot (xs ! r) = Inr True) \<Longrightarrow>
   k \<le> length xs \<and> (0 < k \<longrightarrow> islt c pivot (xs ! (k - 1)) = Inr False)
     \<and> (k < length xs \<longrightarrow> islt c pivot (xs ! k) = Inr True)"
proof (induction c pivot xs l r rule: binarysearch.induct)
  case (1 c pivot xs l r)
  show ?case
  proof (cases "l < r")
    case False
    with "1.prems" have "k = l" "l = r" by (simp_all add: binarysearch.simps)
    with "1.prems" show ?thesis by simp
  next
    case True
    define p where "p = l + (r - l) div 2"
    have p: "l \<le> p" "p < r" using True by (simp_all add: p_def)
    from "1.prems"(1) True obtain b where b: "islt c pivot (xs ! p) = Inr b"
      by (cases "islt c pivot (xs ! p)") (auto simp: binarysearch.simps[of c pivot xs l r] p_def)
    show ?thesis
    proof (cases b)
      case True
      with "1.prems"(1) \<open>l < r\<close> b have r: "binarysearch c pivot xs l p = Inr k"
        by (simp add: binarysearch.simps[of c pivot xs l r] p_def)
      show ?thesis
        using "1.IH"(1)[OF \<open>l < r\<close> b[unfolded p_def] True r[unfolded p_def]] p "1.prems" b True
        by (simp add: p_def)
    next
      case False
      with "1.prems"(1) \<open>l < r\<close> b have r: "binarysearch c pivot xs (p + 1) r = Inr k"
        by (simp add: binarysearch.simps[of c pivot xs l r] p_def)
      show ?thesis
        using "1.IH"(2)[OF \<open>l < r\<close> b[unfolded p_def] False r[unfolded p_def]] p "1.prems" b False
        by (simp add: p_def)
    qed
  qed
qed

lemma insert_placed:
  assumes "successively P pre" "k \<le> length pre"
    and "0 < k \<longrightarrow> P (pre ! (k - 1)) pivot"
    and "k < length pre \<longrightarrow> P pivot (pre ! k)"
  shows "successively P (take k pre @ pivot # drop k pre)"
proof -
  have "successively P (take k pre @ drop k pre)" using assms(1) by simp
  then have a: "successively P (take k pre)" and b: "successively P (drop k pre)"
    unfolding successively_append_iff by auto
  have c: "take k pre \<noteq> [] \<Longrightarrow> P (last (take k pre)) pivot"
    using assms(2,3) by (cases k) (auto simp: last_conv_nth)
  have d: "drop k pre \<noteq> [] \<Longrightarrow> P pivot (hd (drop k pre))"
    using assms(2,4) by (auto simp: hd_drop_conv_nth)
  show ?thesis
    unfolding successively_append_iff using a b c d
    by (auto simp: successively_Cons)
qed

lemma binarysort_placed:
  "binarysort c pre rest = Inr ys \<Longrightarrow> successively (placed c) pre \<Longrightarrow>
     successively (placed c) ys \<and> mset ys = mset pre + mset rest"
proof (induction rest arbitrary: pre)
  case Nil
  then show ?case by simp
next
  case (Cons pivot rest)
  from Cons.prems(1) obtain k where k: "binarysearch c pivot pre 0 (length pre) = Inr k"
    and r: "binarysort c (take k pre @ pivot # drop k pre) rest = Inr ys"
    by (auto split: sum.splits)
  from binarysearch_placed[OF k] have kb: "k \<le> length pre"
    and k1: "0 < k \<longrightarrow> islt c pivot (pre ! (k - 1)) = Inr False"
    and k2: "k < length pre \<longrightarrow> islt c pivot (pre ! k) = Inr True"
    by auto
  have "successively (placed c) (take k pre @ pivot # drop k pre)"
    using Cons.prems(2) kb k1 k2 by (intro insert_placed) (auto simp: placed_def)
  from Cons.IH[OF r this] have "successively (placed c) ys"
    and "mset ys = mset (take k pre @ pivot # drop k pre) + mset rest" by auto
  moreover have "mset pre = mset (take k pre) + mset (drop k pre)"
    by (metis append_take_drop_id mset_append)
  then have "mset (take k pre @ pivot # drop k pre) = add_mset pivot (mset pre)"
    by simp
  ultimately show ?case by simp
qed

lemma sorted_cmp_placed:
  assumes "sorted_cmp c xs = Inr ys"
  shows "successively (placed c) ys \<and> mset ys = mset xs"
proof (cases "length xs < 2")
  case True
  with assms have "ys = xs" by (simp add: sorted_cmp_def)
  moreover have "successively (placed c) xs"
    using True by (cases xs; cases "tl xs") auto
  ultimately show ?thesis by simp
next
  case False
  with assms obtain n d where cr: "count_run c xs = Inr (n, d)"
    and bs: "binarysort c (if d then rev (take n xs) else take n xs) (drop n xs) = Inr ys"
    by (auto simp: sorted_cmp_def split: sum.splits)
  from binarysort_placed[OF bs count_run_placed[OF cr]]
  have "successively (placed c) ys"
    and "mset ys = mset (if d then rev (take n xs) else take n xs) + mset (drop n xs)" by auto
  moreover have "mset xs = mset (take n xs) + mset (drop n xs)"
    by (metis append_take_drop_id mset_append)
  then have "mset (if d then rev (take n xs) else take n xs) + mset (drop n xs) = mset xs"
    by simp
  ultimately show ?thesis by simp
qed

subsection \<open>What a successful sort of regions establishes\<close>

lemma islt_Inr:
  "islt c a b = Inr r \<longleftrightarrow> (\<exists>v. c a b = Inr v \<and> r = (v < 0))"
  by (cases "c a b") (auto simp: islt_def)

lemma compareascend_before:
  assumes "compareascend a b = Inr v"
  shows "(v < 0 \<longrightarrow> before_asc a b) \<and> (\<not> v < 0 \<longrightarrow> before_asc b a)"
proof -
  from assms have o: "check_range_overlap a b False = Inr ()"
    and "\<exists>x y. lo a = Some x \<and> lo b = Some y \<and> v = x - y"
    by (simp_all add: compareascend_Inr)
  then obtain x y where xy: "lo a = Some x" "lo b = Some y" "v = x - y" by blast
  from o have ca: "check_range a False = Inr ()" and cb: "check_range b False = Inr ()"
    and ne: "x \<noteq> y"
    and l: "x < y \<longrightarrow> (\<forall>h. hi a = Some h \<longrightarrow> h \<le> y)"
    and r: "y < x \<longrightarrow> (\<forall>h. hi b = Some h \<longrightarrow> h \<le> x)"
    using xy by (simp_all add: check_range_overlap_asc)
  from ca xy have va: "\<forall>h. hi a = Some h \<longrightarrow> x < h" by (simp add: check_range_asc)
  from cb xy have vb: "\<forall>h. hi b = Some h \<longrightarrow> y < h" by (simp add: check_range_asc)
  show ?thesis
    unfolding before_asc_def using xy ne l r va vb by (simp; linarith)
qed

lemma comparedescend_before:
  assumes "comparedescend a b = Inr v"
  shows "(v < 0 \<longrightarrow> before_desc a b) \<and> (\<not> v < 0 \<longrightarrow> before_desc b a)"
proof -
  from assms have o: "check_range_overlap a b True = Inr ()"
    and "\<exists>x y. hi a = Some x \<and> hi b = Some y \<and> v = y - x"
    by (simp_all add: comparedescend_Inr)
  then obtain x y where xy: "hi a = Some x" "hi b = Some y" "v = y - x" by blast
  from o have ca: "check_range a True = Inr ()" and cb: "check_range b True = Inr ()"
    and ne: "x \<noteq> y"
    and l: "x < y \<longrightarrow> (\<forall>l. lo b = Some l \<longrightarrow> x \<le> l)"
    and r: "y < x \<longrightarrow> (\<forall>l. lo a = Some l \<longrightarrow> y \<le> l)"
    using xy by (simp_all add: check_range_overlap_desc)
  from ca xy have va: "\<forall>l. lo a = Some l \<longrightarrow> l < x" by (simp add: check_range_desc)
  from cb xy have vb: "\<forall>l. lo b = Some l \<longrightarrow> l < y" by (simp add: check_range_desc)
  show ?thesis
    unfolding before_desc_def using xy ne l r va vb by (simp; linarith)
qed

lemma placed_compareascend: "placed compareascend a b \<Longrightarrow> before_asc a b"
  unfolding placed_def islt_Inr using compareascend_before by blast

lemma placed_comparedescend: "placed comparedescend a b \<Longrightarrow> before_desc a b"
  unfolding placed_def islt_Inr using comparedescend_before by blast

lemma before_asc_trans:
  assumes "before_asc a b" "before_asc b c"
  shows "before_asc a c"
proof -
  from assms(1) obtain x y where 1: "lo a = Some x" "lo b = Some y" "x < y"
    "\<forall>h. hi a = Some h \<longrightarrow> x < h \<and> h \<le> y"
    unfolding before_asc_def by blast
  from assms(2) obtain y' z where 2: "lo b = Some y'" "lo c = Some z" "y' < z"
    "\<forall>h. hi c = Some h \<longrightarrow> z < h"
    unfolding before_asc_def by blast
  from 1 2 have "y' = y" by simp
  with 1 2 have "x < z" "\<forall>h. hi a = Some h \<longrightarrow> x < h \<and> h \<le> z" by auto
  with 1 2 show ?thesis unfolding before_asc_def by blast
qed

lemma before_desc_trans:
  assumes "before_desc a b" "before_desc b c"
  shows "before_desc a c"
proof -
  from assms(1) obtain x y where 1: "hi a = Some x" "hi b = Some y" "y < x"
    "\<forall>l. lo a = Some l \<longrightarrow> l < x \<and> y \<le> l"
    unfolding before_desc_def by blast
  from assms(2) obtain y' z where 2: "hi b = Some y'" "hi c = Some z" "z < y'"
    "\<forall>l. lo c = Some l \<longrightarrow> l < z"
    unfolding before_desc_def by blast
  from 1 2 have "y' = y" by simp
  with 1 2 have "z < x" "\<forall>l. lo a = Some l \<longrightarrow> l < x \<and> z \<le> l" by auto
  with 1 2 show ?thesis unfolding before_desc_def by blast
qed

lemma sorted_cmp_asc:
  assumes "sorted_cmp (node_cmp False) xs = Inr ys"
  shows "sorted_wrt before_asc ys \<and> mset ys = mset xs"
proof -
  from sorted_cmp_placed[OF assms]
  have s: "successively (placed compareascend) ys" and m: "mset ys = mset xs"
    by (simp_all add: node_cmp_def)
  from s have "successively before_asc ys"
    by (rule successively_mono) (rule placed_compareascend)
  moreover have "transp before_asc"
    by (rule transpI) (rule before_asc_trans)
  ultimately have "sorted_wrt before_asc ys"
    by (simp add: successively_conv_sorted_wrt)
  with m show ?thesis by simp
qed

lemma sorted_cmp_desc:
  assumes "sorted_cmp (node_cmp True) xs = Inr ys"
  shows "sorted_wrt before_desc ys \<and> mset ys = mset xs"
proof -
  from sorted_cmp_placed[OF assms]
  have s: "successively (placed comparedescend) ys" and m: "mset ys = mset xs"
    by (simp_all add: node_cmp_def)
  from s have "successively before_desc ys"
    by (rule successively_mono) (rule placed_comparedescend)
  moreover have "transp before_desc"
    by (rule transpI) (rule before_desc_trans)
  ultimately have "sorted_wrt before_desc ys"
    by (simp add: successively_conv_sorted_wrt)
  with m show ?thesis by simp
qed

subsection \<open>Where an exception of the sort comes from\<close>









subsection \<open>Overlapping regions\<close>









subsection \<open>Endpoints after resolution\<close>

lemma check_node_asc:
  "check_node n False = Inr n' \<longleftrightarrow>
     n' = n\<lparr>checked := True\<rparr> \<and> (\<exists>l. lo n = Some l \<and> 0 \<le> l \<and> (\<forall>h. hi n = Some h \<longrightarrow> l < h))"
  by (cases "lo n"; cases "hi n") (auto simp: check_node_def py_ge_def py_le_def)

lemma check_node_desc:
  "check_node n True = Inr n' \<longleftrightarrow>
     n' = n\<lparr>checked := True\<rparr>
     \<and> (\<exists>h. hi n = Some h \<and> 0 \<le> h \<and> (\<forall>l. lo n = Some l \<longrightarrow> 0 \<le> l \<and> l < h))"
  by (cases "lo n"; cases "hi n") (auto simp: check_node_def py_ge_def py_le_def)

lemma check_nodes_Inr:
  "check_nodes ns reverse = Inr ns' \<Longrightarrow>
     ns' = map (\<lambda>n. n\<lparr>checked := True\<rparr>) ns
     \<and> (\<forall>n \<in> set ns. check_node n reverse = Inr (n\<lparr>checked := True\<rparr>))"
proof (induction ns arbitrary: ns')
  case Nil
  then show ?case by simp
next
  case (Cons n ns)
  from Cons.prems obtain n' ms where n': "check_node n reverse = Inr n'"
    and ms: "check_nodes ns reverse = Inr ms" and e: "ns' = n' # ms"
    by (auto split: sum.splits)
  from n' have "n' = n\<lparr>checked := True\<rparr>"
    by (cases reverse) (simp_all add: check_node_asc check_node_desc)
  with Cons.IH[OF ms] n' e show ?case by simp
qed

lemma sort_and_check_nodes_stages:
  assumes "sort_and_check_nodes rnd ns reverse = Inr out"
  obtains nodes1 nodes2 nodes3 where
    "sorted_cmp (node_cmp reverse) ns = Inr nodes1"
    "check_nodes nodes1 reverse = Inr nodes2"
    "sorted_cmp (node_cmp reverse)
       (nodes2 @ (case nodes2 of [] \<Rightarrow> [] | last_n # rest \<Rightarrow> gap_loop reverse rnd 1 last_n rest))
     = Inr nodes3"
    "fill_gaps nodes3 reverse = Inr out"
  using assms unfolding sort_and_check_nodes_def
  by (auto split: sum.splits)

lemma gap_at_asc:
  "b \<in> set (gap_at False r p n) \<longleftrightarrow>
     (\<exists>h y. hi p = Some h \<and> h \<noteq> 0 \<and> lo n = Some y \<and> h + 1 < y
        \<and> b = BlankRegionNode r (Some h) (Some y))"
  by (cases "hi p"; cases "lo n") (auto simp: gap_at_def py_gt_def)

lemma gap_at_desc:
  "b \<in> set (gap_at True r p n) \<longleftrightarrow>
     (\<exists>l. lo p = Some l \<and> l \<noteq> 0 \<and> py_lt (hi n) (Some (l - 1))
        \<and> b = BlankRegionNode r (hi n) (Some l))"
  by (cases "lo p") (auto simp: gap_at_def)








subsection \<open>Inferring a missing trailing endpoint\<close>

text \<open>
  In ascending mode \<open>fill_gaps\<close> returns whenever every region has \<open>lo\<close>, and a
  region without \<open>hi\<close> that has a successor gets the successor's \<open>lo\<close> minus one.
\<close>

lemma fill_gaps_loop_asc_infers:
  "fill_gaps_loop False p ns = Inr r \<Longrightarrow> Suc i < length (p # ns) \<Longrightarrow>
   hi ((p # ns) ! i) = None \<Longrightarrow> lo ((p # ns) ! Suc i) = Some y \<Longrightarrow>
   hi (r ! i) = Some (y - 1) \<and> lo (r ! i) = lo ((p # ns) ! i)"
proof (induction ns arbitrary: p r i)
  case Nil
  then show ?case by auto
next
  case (Cons n ns)
  show ?case
  proof (cases i)
    case 0
    with Cons.prems show ?thesis by (auto split: sum.splits if_splits)
  next
    case (Suc j)
    from Cons.prems(1) obtain r' q where r': "fill_gaps_loop False n ns = Inr r'" and r: "r = q # r'"
      by (auto split: sum.splits if_splits)
    from Cons.prems(2-4) Suc have "Suc j < length (n # ns)" "hi ((n # ns) ! j) = None"
      "lo ((n # ns) ! Suc j) = Some y" by simp_all
    from Cons.IH[OF r' this] r Suc show ?thesis by simp
  qed
qed

lemma fill_gaps_loop_asc_total:
  "\<forall>n \<in> set ns. lo n \<noteq> None \<Longrightarrow> \<exists>r. fill_gaps_loop False p ns = Inr r"
proof (induction ns arbitrary: p)
  case Nil
  then show ?case by simp
next
  case (Cons n ns)
  from Cons.prems obtain y where y: "lo n = Some y" by auto
  from Cons.prems have "\<forall>m \<in> set ns. lo m \<noteq> None" by simp
  from Cons.IH[OF this] obtain r where "fill_gaps_loop False n ns = Inr r" by blast
  with y show ?case by (cases "hi p") simp_all
qed

text \<open>
  C5 at its failing input, descending mode. The region up to \<open>0x30\<close> with no \<open>lo\<close>
  followed by \<open>[0x0, 0x10)\<close>: \<open>fill_gaps\<close> leaves the missing \<open>lo\<close> undefined
  where the claim infers \<open>0x11\<close>. And \<open>[0x28, 0x30)\<close> followed by the region up to
  \<open>0x20\<close> with no \<open>lo\<close>: \<open>fill_gaps\<close> writes \<open>0x2F\<close>, one below the \<open>hi\<close> of the
  region before, into the second region, above that region's own \<open>hi\<close>.
\<close>

theorem fill_gaps_descending_failing_input:
  "fill_gaps [region_top, region_a] True = Inr [region_top, region_a]
   \<and> lo region_top = None
   \<and> fill_gaps [region_d, region_low] True = Inr [region_d, region_low\<lparr>lo := Some 47\<rparr>]
   \<and> hi region_low = Some 32"
  by (simp add: fill_gaps_def region_top_def region_a_def region_d_def region_low_def)

subsection \<open>The second sort puts each blank region after the region it follows\<close>

lemma weave_Cons: "\<exists>t. weave reverse rnd i p ns = p # t"
  by (cases ns) auto

lemma mset_weave:
  "mset (weave reverse rnd i p ns) = mset (p # ns) + mset (gap_loop reverse rnd i p ns)"
  by (induction ns arbitrary: i p) auto

lemma before_asc_key: "before_asc a b \<Longrightarrow> the (lo a) < the (lo b)"
  by (auto simp: before_asc_def)

lemma before_desc_key: "before_desc a b \<Longrightarrow> the (hi b) < the (hi a)"
  by (auto simp: before_desc_def)

lemma sorted_wrt_key_unique:
  fixes f :: "'a \<Rightarrow> int"
  assumes "sorted_wrt (\<lambda>a b. f a < f b) xs" "sorted_wrt (\<lambda>a b. f a < f b) ys"
    and "mset xs = mset ys"
  shows "xs = ys"
proof -
  have x: "sorted_wrt (<) (map f xs)" and y: "sorted_wrt (<) (map f ys)"
    using assms(1,2) by (simp_all add: sorted_wrt_map)
  have sx: "sorted (map f xs)" "distinct (map f xs)" and sy: "sorted (map f ys)" "distinct (map f ys)"
    using x y by (simp_all add: strict_sorted_iff)
  have s: "set xs = set ys" using assms(3) by (metis mset_eq_setD)
  have "inj_on f (set xs)" using sx(2) by (simp add: distinct_map)
  with s have "inj_on f (set xs \<union> set ys)" by simp
  then show ?thesis
    using sx sy s by (rule map_sorted_distinct_set_unique)
qed

lemma sorted_asc_unique:
  assumes "sorted_wrt before_asc xs" "sorted_wrt before_asc ys" "mset xs = mset ys"
  shows "xs = ys"
proof -
  have "sorted_wrt (\<lambda>a b. the (lo a) < the (lo b)) xs" "sorted_wrt (\<lambda>a b. the (lo a) < the (lo b)) ys"
    using assms(1,2) by (auto intro: sorted_wrt_mono_rel[rotated] before_asc_key)
  then show ?thesis using assms(3) by (rule sorted_wrt_key_unique)
qed

lemma sorted_desc_unique:
  assumes "sorted_wrt before_desc xs" "sorted_wrt before_desc ys" "mset xs = mset ys"
  shows "xs = ys"
proof -
  have "sorted_wrt (\<lambda>a b. - the (hi a) < - the (hi b)) xs"
       "sorted_wrt (\<lambda>a b. - the (hi a) < - the (hi b)) ys"
    using assms(1,2) by (auto intro: sorted_wrt_mono_rel[rotated] dest: before_desc_key)
  then show ?thesis using assms(3) by (rule sorted_wrt_key_unique)
qed

lemma successively_weave_asc:
  "successively before_asc (p # ns) \<Longrightarrow> successively before_asc (weave False rnd i p ns)"
proof (induction ns arbitrary: i p)
  case Nil
  then show ?case by simp
next
  case (Cons n ns)
  from Cons.prems have pn: "before_asc p n" and rest: "successively before_asc (n # ns)"
    by simp_all
  obtain t where t: "weave False rnd (Suc i) n ns = n # t" using weave_Cons by blast
  have ih: "successively before_asc (n # t)" using Cons.IH[OF rest, of "Suc i"] t by simp
  show ?case
  proof (cases "gap_at False (rnd i) p n")
    case Nil
    with t ih pn show ?thesis by simp
  next
    case (Cons b bs)
    then have "b \<in> set (gap_at False (rnd i) p n)" by simp
    then obtain h y where b: "hi p = Some h" "lo n = Some y" "h + 1 < y"
      "b = BlankRegionNode (rnd i) (Some h) (Some y)"
      unfolding gap_at_asc by blast
    with Cons have g: "gap_at False (rnd i) p n = [b]"
      by (auto simp: gap_at_def py_gt_def split: if_splits)
    have "before_asc p b" "before_asc b n"
      using pn b by (auto simp: before_asc_def)
    with g t ih show ?thesis by simp
  qed
qed

lemma second_sort_is_weave_asc:
  assumes "sorted_wrt before_asc (p # rest)"
    and "sorted_cmp (node_cmp False) ((p # rest) @ gap_loop False rnd i p rest) = Inr nodes3"
  shows "nodes3 = weave False rnd i p rest"
proof -
  have tr: "transp before_asc" by (rule transpI) (rule before_asc_trans)
  from sorted_cmp_asc[OF assms(2)] have a: "sorted_wrt before_asc nodes3"
    and m: "mset nodes3 = mset ((p # rest) @ gap_loop False rnd i p rest)" by simp_all
  from assms(1) have "successively before_asc (p # rest)"
    by (rule successively_if_sorted_wrt)
  then have "successively before_asc (weave False rnd i p rest)"
    by (rule successively_weave_asc)
  then have b: "sorted_wrt before_asc (weave False rnd i p rest)"
    using tr by (simp add: successively_conv_sorted_wrt)
  have "mset nodes3 = mset (weave False rnd i p rest)"
    using m by (simp add: mset_weave)
  with a b show ?thesis by (rule sorted_asc_unique)
qed

lemma near_weave_asc:
  "successively before_asc (p # ns) \<Longrightarrow> \<forall>n \<in> set (p # ns). \<exists>l. lo n = Some l \<and> 0 \<le> l \<Longrightarrow>
   successively (\<lambda>a b. lo b \<noteq> None \<and> (hi a = None \<or> joined_asc a b)) (weave False rnd i p ns)"
proof (induction ns arbitrary: i p)
  case Nil
  then show ?case by simp
next
  case (Cons n ns)
  from Cons.prems have pn: "before_asc p n" and rest: "successively before_asc (n # ns)"
    and nn: "\<forall>m \<in> set (n # ns). \<exists>l. lo m = Some l \<and> 0 \<le> l"
    and pl: "\<exists>l. lo p = Some l \<and> 0 \<le> l"
    by simp_all
  obtain t where t: "weave False rnd (Suc i) n ns = n # t" using weave_Cons by blast
  have ih: "successively (\<lambda>a b. lo b \<noteq> None \<and> (hi a = None \<or> joined_asc a b)) (n # t)"
    using Cons.IH[OF rest nn, of "Suc i"] t by simp
  from pn pl obtain x y where xy: "lo p = Some x" "0 \<le> x" "lo n = Some y" "x < y"
    "\<forall>h. hi p = Some h \<longrightarrow> x < h \<and> h \<le> y"
    by (auto simp: before_asc_def)
  show ?case
  proof (cases "hi p")
    case None
    then have "gap_at False (rnd i) p n = []" by (simp add: gap_at_def)
    with None xy t ih show ?thesis by simp
  next
    case (Some h)
    with xy have h: "x < h" "h \<le> y" "h \<noteq> 0" by auto
    show ?thesis
    proof (cases "h + 1 < y")
      case True
      with Some h xy have g: "gap_at False (rnd i) p n = [BlankRegionNode (rnd i) (Some h) (Some y)]"
        by (simp add: gap_at_def py_gt_def)
      have "joined_asc p (BlankRegionNode (rnd i) (Some h) (Some y))"
        "joined_asc (BlankRegionNode (rnd i) (Some h) (Some y)) n"
        using Some xy by (simp_all add: joined_asc_def)
      with g t ih xy show ?thesis by simp
    next
      case False
      with Some h xy have g: "gap_at False (rnd i) p n = []"
        by (simp add: gap_at_def py_gt_def)
      have "joined_asc p n" using Some xy h False by (auto simp: joined_asc_def)
      with g t ih xy show ?thesis by simp
    qed
  qed
qed

lemma fill_gaps_loop_joined_asc:
  "fill_gaps_loop False p ns = Inr r \<Longrightarrow>
   successively (\<lambda>a b. lo b \<noteq> None \<and> (hi a = None \<or> joined_asc a b)) (p # ns) \<Longrightarrow>
   successively joined_asc r \<and> r \<noteq> [] \<and> lo (hd r) = lo p"
proof (induction ns arbitrary: p r)
  case Nil
  then show ?case by auto
next
  case (Cons n ns)
  from Cons.prems(2) have pn: "lo n \<noteq> None" "hi p = None \<or> joined_asc p n"
    and rest: "successively (\<lambda>a b. lo b \<noteq> None \<and> (hi a = None \<or> joined_asc a b)) (n # ns)"
    by simp_all
  from pn obtain y where y: "lo n = Some y" by auto
  from Cons.prems(1) y obtain r' where r': "fill_gaps_loop False n ns = Inr r'"
    and r: "r = (if hi p = None then p\<lparr>hi := Some (y - 1)\<rparr> else p) # r'"
    by (auto split: sum.splits if_splits)
  from Cons.IH[OF r' rest] have ih: "successively joined_asc r'" "r' \<noteq> []" "lo (hd r') = lo n"
    by simp_all
  have "joined_asc (if hi p = None then p\<lparr>hi := Some (y - 1)\<rparr> else p) (hd r')"
    using pn(2) ih(3) y by (auto simp: joined_asc_def)
  with r ih show ?case by (simp add: successively_Cons)
qed

lemma before_checked [simp]:
  "before_asc (a\<lparr>checked := u\<rparr>) (b\<lparr>checked := v\<rparr>) = before_asc a b"
  "before_desc (a\<lparr>checked := u\<rparr>) (b\<lparr>checked := v\<rparr>) = before_desc a b"
  by (simp_all add: before_asc_def before_desc_def)

lemma resolver_asc_form:
  assumes "sort_and_check_nodes rnd ns False = Inr out"
  shows "out = [] \<or> (\<exists>p rest. sorted_wrt before_asc (p # rest)
            \<and> (\<forall>n \<in> set (p # rest). \<exists>l. lo n = Some l \<and> 0 \<le> l)
            \<and> (\<exists>srt. sorted_cmp (node_cmp False) ns = Inr srt
                  \<and> p # rest = map (\<lambda>n. n\<lparr>checked := True\<rparr>) srt)
            \<and> fill_gaps_loop False p (tl (weave False rnd 1 p rest)) = Inr out)"
proof -
  from assms obtain nodes1 nodes2 nodes3 where
    s1: "sorted_cmp (node_cmp False) ns = Inr nodes1" and
    c: "check_nodes nodes1 False = Inr nodes2" and
    s2: "sorted_cmp (node_cmp False)
       (nodes2 @ (case nodes2 of [] \<Rightarrow> [] | last_n # rest \<Rightarrow> gap_loop False rnd 1 last_n rest))
     = Inr nodes3" and
    f: "fill_gaps nodes3 False = Inr out"
    by (rule sort_and_check_nodes_stages)
  from check_nodes_Inr[OF c] have n2: "nodes2 = map (\<lambda>n. n\<lparr>checked := True\<rparr>) nodes1"
    and ok: "\<forall>n \<in> set nodes1. check_node n False = Inr (n\<lparr>checked := True\<rparr>)" by simp_all
  have sw: "sorted_wrt before_asc nodes2"
    using sorted_cmp_asc[OF s1] by (simp add: n2 sorted_wrt_map)
  have nn: "\<forall>n \<in> set nodes2. \<exists>l. lo n = Some l \<and> 0 \<le> l"
    using ok by (auto simp: n2 check_node_asc)
  show ?thesis
  proof (cases nodes2)
    case Nil
    with s2 have "nodes3 = []" by (simp add: sorted_cmp_def)
    with f show ?thesis by (simp add: fill_gaps_def)
  next
    case (Cons p rest)
    with s2 sw have "nodes3 = weave False rnd 1 p rest"
      by (intro second_sort_is_weave_asc) simp_all
    moreover obtain t where "weave False rnd 1 p rest = p # t" using weave_Cons by blast
    ultimately have "fill_gaps_loop False p (tl (weave False rnd 1 p rest)) = Inr out"
      using f by (simp add: fill_gaps_def)
    with Cons sw nn s1 n2 show ?thesis by auto
  qed
qed

lemma resolved_ascending_joined:
  assumes "sort_and_check_nodes rnd ns False = Inr out" and "Suc i < length out"
  shows "\<exists>h y. hi (out ! i) = Some h \<and> lo (out ! Suc i) = Some y \<and> (y = h \<or> y = h + 1)"
proof -
  from resolver_asc_form[OF assms(1)] assms(2) obtain p rest where
    sw: "sorted_wrt before_asc (p # rest)" and
    nn: "\<forall>n \<in> set (p # rest). \<exists>l. lo n = Some l \<and> 0 \<le> l" and
    f: "fill_gaps_loop False p (tl (weave False rnd 1 p rest)) = Inr out"
    by auto
  obtain t where t: "weave False rnd 1 p rest = p # t" using weave_Cons by blast
  have "successively (\<lambda>a b. lo b \<noteq> None \<and> (hi a = None \<or> joined_asc a b)) (weave False rnd 1 p rest)"
    using sw nn by (intro near_weave_asc successively_if_sorted_wrt)
  with t f have "successively joined_asc out"
    using fill_gaps_loop_joined_asc[of p t out] by simp
  then have "joined_asc (out ! i) (out ! Suc i)"
    using assms(2) by (rule successively_nth)
  then show ?thesis by (simp add: joined_asc_def)
qed

lemma successively_weave_desc:
  "successively before_desc (p # ns) \<Longrightarrow> successively before_desc (weave True rnd i p ns)"
proof (induction ns arbitrary: i p)
  case Nil
  then show ?case by simp
next
  case (Cons n ns)
  from Cons.prems have pn: "before_desc p n" and rest: "successively before_desc (n # ns)"
    by simp_all
  obtain t where t: "weave True rnd (Suc i) n ns = n # t" using weave_Cons by blast
  have ih: "successively before_desc (n # t)" using Cons.IH[OF rest, of "Suc i"] t by simp
  show ?case
  proof (cases "gap_at True (rnd i) p n")
    case Nil
    with t ih pn show ?thesis by simp
  next
    case (Cons b bs)
    then have "b \<in> set (gap_at True (rnd i) p n)" by simp
    then obtain l where b: "lo p = Some l" "py_lt (hi n) (Some (l - 1))"
      "b = BlankRegionNode (rnd i) (hi n) (Some l)"
      unfolding gap_at_desc by blast
    with Cons have g: "gap_at True (rnd i) p n = [b]"
      by (auto simp: gap_at_def split: if_splits)
    have "before_desc p b" "before_desc b n"
      using pn b by (auto simp: before_desc_def)
    with g t ih show ?thesis by simp
  qed
qed

lemma second_sort_is_weave_desc:
  assumes "sorted_wrt before_desc (p # rest)"
    and "sorted_cmp (node_cmp True) ((p # rest) @ gap_loop True rnd i p rest) = Inr nodes3"
  shows "nodes3 = weave True rnd i p rest"
proof -
  have tr: "transp before_desc" by (rule transpI) (rule before_desc_trans)
  from sorted_cmp_desc[OF assms(2)] have a: "sorted_wrt before_desc nodes3"
    and m: "mset nodes3 = mset ((p # rest) @ gap_loop True rnd i p rest)" by simp_all
  from assms(1) have "successively before_desc (p # rest)"
    by (rule successively_if_sorted_wrt)
  then have "successively before_desc (weave True rnd i p rest)"
    by (rule successively_weave_desc)
  then have b: "sorted_wrt before_desc (weave True rnd i p rest)"
    using tr by (simp add: successively_conv_sorted_wrt)
  have "mset nodes3 = mset (weave True rnd i p rest)"
    using m by (simp add: mset_weave)
  with a b show ?thesis by (rule sorted_desc_unique)
qed

lemma joined_weave_desc:
  "successively before_desc (p # ns) \<Longrightarrow>
   \<forall>n \<in> set (p # ns). (\<exists>h. hi n = Some h \<and> 0 \<le> h) \<and> lo n \<noteq> None \<Longrightarrow>
   successively joined_desc (weave True rnd i p ns)
   \<and> (\<forall>n \<in> set (weave True rnd i p ns). lo n \<noteq> None)"
proof (induction ns arbitrary: i p)
  case Nil
  then show ?case by simp
next
  case (Cons n ns)
  from Cons.prems have pn: "before_desc p n" and rest: "successively before_desc (n # ns)"
    and nn: "\<forall>m \<in> set (n # ns). (\<exists>h. hi m = Some h \<and> 0 \<le> h) \<and> lo m \<noteq> None"
    and pl: "lo p \<noteq> None"
    by simp_all
  obtain t where t: "weave True rnd (Suc i) n ns = n # t" using weave_Cons by blast
  have ih: "successively joined_desc (n # t)" "\<forall>m \<in> set (n # t). lo m \<noteq> None"
    using Cons.IH[OF rest nn, of "Suc i"] t by simp_all
  from nn obtain y where y: "hi n = Some y" "0 \<le> y" by auto
  from pl obtain l where l: "lo p = Some l" by auto
  from pn y l have yl: "y \<le> l" by (auto simp: before_desc_def)
  show ?case
  proof (cases "l \<noteq> 0 \<and> y < l - 1")
    case True
    with y l have g: "gap_at True (rnd i) p n = [BlankRegionNode (rnd i) (Some y) (Some l)]"
      by (simp add: gap_at_def)
    have "joined_desc p (BlankRegionNode (rnd i) (Some y) (Some l))"
      "joined_desc (BlankRegionNode (rnd i) (Some y) (Some l)) n"
      using y l by (simp_all add: joined_desc_def)
    with g t ih l show ?thesis by simp
  next
    case False
    with y l have g: "gap_at True (rnd i) p n = []"
      by (auto simp: gap_at_def)
    have "joined_desc p n" using y l yl False by (auto simp: joined_desc_def)
    with g t ih l show ?thesis by simp
  qed
qed

lemma fill_gaps_loop_desc_id:
  "\<forall>n \<in> set ns. lo n \<noteq> None \<Longrightarrow> fill_gaps_loop True p ns = Inr (p # ns)"
  by (induction ns arbitrary: p) auto

lemma resolver_desc_form:
  assumes "sort_and_check_nodes rnd ns True = Inr out" and "out \<noteq> []"
  obtains p rest srt where
    "sorted_wrt before_desc (p # rest)"
    "\<forall>n \<in> set (p # rest). \<exists>h. hi n = Some h \<and> 0 \<le> h"
    "sorted_cmp (node_cmp True) ns = Inr srt"
    "p # rest = map (\<lambda>n. n\<lparr>checked := True\<rparr>) srt"
    "fill_gaps_loop True p (tl (weave True rnd 1 p rest)) = Inr out"
proof -
  from assms(1) obtain nodes1 nodes2 nodes3 where
    s1: "sorted_cmp (node_cmp True) ns = Inr nodes1" and
    c: "check_nodes nodes1 True = Inr nodes2" and
    s2: "sorted_cmp (node_cmp True)
       (nodes2 @ (case nodes2 of [] \<Rightarrow> [] | last_n # rest \<Rightarrow> gap_loop True rnd 1 last_n rest))
     = Inr nodes3" and
    f: "fill_gaps nodes3 True = Inr out"
    by (rule sort_and_check_nodes_stages)
  from check_nodes_Inr[OF c] have n2: "nodes2 = map (\<lambda>n. n\<lparr>checked := True\<rparr>) nodes1"
    and ok: "\<forall>n \<in> set nodes1. check_node n True = Inr (n\<lparr>checked := True\<rparr>)" by simp_all
  have sw: "sorted_wrt before_desc nodes2"
    using sorted_cmp_desc[OF s1] by (simp add: n2 sorted_wrt_map)
  have nn: "\<forall>n \<in> set nodes2. \<exists>h. hi n = Some h \<and> 0 \<le> h"
    using ok by (auto simp: n2 check_node_desc)
  show ?thesis
  proof (cases nodes2)
    case Nil
    with s2 have "nodes3 = []" by (simp add: sorted_cmp_def)
    with f assms(2) show ?thesis by (simp add: fill_gaps_def)
  next
    case (Cons p rest)
    with s2 sw have "nodes3 = weave True rnd 1 p rest"
      by (intro second_sort_is_weave_desc) simp_all
    moreover obtain t where "weave True rnd 1 p rest = p # t" using weave_Cons by blast
    ultimately have "fill_gaps_loop True p (tl (weave True rnd 1 p rest)) = Inr out"
      using f by (simp add: fill_gaps_def)
    with Cons sw nn s1 n2 show ?thesis by (intro that[of p rest nodes1]) simp_all
  qed
qed

lemma resolved_descending_joined:
  assumes "sort_and_check_nodes rnd ns True = Inr out" and "\<forall>n \<in> set ns. lo n \<noteq> None"
    and "Suc i < length out"
  shows "\<exists>l y. lo (out ! i) = Some l \<and> hi (out ! Suc i) = Some y \<and> (l = y \<or> l = y + 1)"
proof -
  from assms(3) have "out \<noteq> []" by auto
  with assms(1) obtain p rest srt where
    sw: "sorted_wrt before_desc (p # rest)" and
    nn: "\<forall>n \<in> set (p # rest). \<exists>h. hi n = Some h \<and> 0 \<le> h" and
    srt: "sorted_cmp (node_cmp True) ns = Inr srt" "p # rest = map (\<lambda>n. n\<lparr>checked := True\<rparr>) srt" and
    f: "fill_gaps_loop True p (tl (weave True rnd 1 p rest)) = Inr out"
    by (rule resolver_desc_form)
  have "set srt = set ns" using sorted_cmp_desc[OF srt(1)] by (metis mset_eq_setD)
  with assms(2) have "\<forall>n \<in> set (map (\<lambda>n. n\<lparr>checked := True\<rparr>) srt). lo n \<noteq> None" by simp
  with srt(2) have ld: "\<forall>n \<in> set (p # rest). lo n \<noteq> None" by metis
  obtain t where t: "weave True rnd 1 p rest = p # t" using weave_Cons by blast
  have j: "successively joined_desc (weave True rnd 1 p rest)"
    and d: "\<forall>n \<in> set (weave True rnd 1 p rest). lo n \<noteq> None"
    using joined_weave_desc[OF successively_if_sorted_wrt[OF sw], of rnd 1] nn ld by auto
  from d t have "fill_gaps_loop True p t = Inr (p # t)"
    by (intro fill_gaps_loop_desc_id) simp
  with f t have "out = weave True rnd 1 p rest" by simp
  with j have "successively joined_desc out" by simp
  then have "joined_desc (out ! i) (out ! Suc i)"
    using assms(3) by (rule successively_nth)
  then show ?thesis by (simp add: joined_desc_def)
qed

subsection \<open>Contiguity of the resolved sequence\<close>

text \<open>
  C1, as the code has it. When the resolver returns in ascending mode, each region of
  the result has \<open>hi\<close>, unless it is the last, and the region after it starts at that
  \<open>hi\<close> or one address above it. When it returns in descending mode on regions that
  all came with their \<open>lo\<close>, each region of the result but the last starts where
  the region after it ends or one address above.
\<close>

theorem resolved_regions_joined:
  "(sort_and_check_nodes rnd ns False = Inr out \<and> Suc i < length out
      \<longrightarrow> (\<exists>h y. hi (out ! i) = Some h \<and> lo (out ! Suc i) = Some y \<and> (y = h \<or> y = h + 1)))
   \<and> (sort_and_check_nodes rnd ns' True = Inr out' \<and> (\<forall>n \<in> set ns'. lo n \<noteq> None)
        \<and> Suc j < length out'
      \<longrightarrow> (\<exists>l y. lo (out' ! j) = Some l \<and> hi (out' ! Suc j) = Some y \<and> (l = y \<or> l = y + 1)))"
  using resolved_ascending_joined resolved_descending_joined by blast

theorem resolved_regions_joined_witness:
  "sort_and_check_nodes blank_label [region_a, region_b] False
     = Inr [region_a\<lparr>checked := True\<rparr>, BlankRegionNode ''BLANK'' (Some 16) (Some 32),
            region_b\<lparr>checked := True\<rparr>]
   \<and> hi ([region_a\<lparr>checked := True\<rparr>, BlankRegionNode ''BLANK'' (Some 16) (Some 32),
           region_b\<lparr>checked := True\<rparr>] ! 0) = Some 16
   \<and> lo ([region_a\<lparr>checked := True\<rparr>, BlankRegionNode ''BLANK'' (Some 16) (Some 32),
           region_b\<lparr>checked := True\<rparr>] ! Suc 0) = Some 16
   \<and> sort_and_check_nodes blank_label [region_d, region_a] True
     = Inr [region_d\<lparr>checked := True\<rparr>, BlankRegionNode ''BLANK'' (Some 16) (Some 40),
            region_a\<lparr>checked := True\<rparr>]
   \<and> lo ([region_d\<lparr>checked := True\<rparr>, BlankRegionNode ''BLANK'' (Some 16) (Some 40),
           region_a\<lparr>checked := True\<rparr>] ! 0) = Some 40
   \<and> hi ([region_d\<lparr>checked := True\<rparr>, BlankRegionNode ''BLANK'' (Some 16) (Some 40),
           region_a\<lparr>checked := True\<rparr>] ! Suc 0) = Some 40"
proof -
  have e1: "sort_and_check_nodes blank_label [region_a, region_b] False
     = Inr [region_a\<lparr>checked := True\<rparr>, BlankRegionNode ''BLANK'' (Some 16) (Some 32),
            region_b\<lparr>checked := True\<rparr>]"
    by code_simp
  have e2: "sort_and_check_nodes blank_label [region_d, region_a] True
     = Inr [region_d\<lparr>checked := True\<rparr>, BlankRegionNode ''BLANK'' (Some 16) (Some 40),
            region_a\<lparr>checked := True\<rparr>]"
    by code_simp
  have e3: "\<forall>n \<in> set [region_d, region_a]. lo n \<noteq> None"
    by (simp add: region_d_def region_a_def)
  show ?thesis
    using resolved_regions_joined[of blank_label "[region_a, region_b]"
        "[region_a\<lparr>checked := True\<rparr>, BlankRegionNode ''BLANK'' (Some 16) (Some 32),
            region_b\<lparr>checked := True\<rparr>]" 0
        "[region_d, region_a]"
        "[region_d\<lparr>checked := True\<rparr>, BlankRegionNode ''BLANK'' (Some 16) (Some 40),
            region_a\<lparr>checked := True\<rparr>]" 0] e1 e2 e3
    by (simp add: region_a_def region_d_def)
qed

text \<open>
  C1 as stated fails: the regions \<open>[0x0, 0x10)\<close> and \<open>[0x11, 0x20)\<close> are accepted in
  ascending mode with no blank region between them, and the second starts at \<open>0x11\<close>,
  not at \<open>0x10\<close>.
\<close>

theorem residual_gap_counterexample:
  "sort_and_check_nodes blank_label [region_a, region_c] False
     = Inr [region_a\<lparr>checked := True\<rparr>, region_c\<lparr>checked := True\<rparr>]
   \<and> hi (region_a\<lparr>checked := True\<rparr>) = Some 16
   \<and> lo (region_c\<lparr>checked := True\<rparr>) = Some 17"
proof -
  have "sort_and_check_nodes blank_label [region_a, region_c] False
     = Inr [region_a\<lparr>checked := True\<rparr>, region_c\<lparr>checked := True\<rparr>]"
    by code_simp
  then show ?thesis by (simp add: region_a_def region_c_def)
qed

subsection \<open>Blank regions in the gaps\<close>

lemma gap_loop_nth:
  "Suc i < length (p # ns) \<Longrightarrow>
     set (gap_at reverse (rnd (k + i)) ((p # ns) ! i) ((p # ns) ! Suc i))
       \<subseteq> set (gap_loop reverse rnd k p ns)"
proof (induction ns arbitrary: p k i)
  case Nil
  then show ?case by simp
next
  case (Cons n ns)
  show ?case
  proof (cases i)
    case 0
    then show ?thesis by simp
  next
    case (Suc j)
    with Cons.prems have "Suc j < length (n # ns)" by simp
    from Cons.IH[OF this, of "Suc k"] Suc show ?thesis by auto
  qed
qed

lemma fill_gaps_loop_asc_keeps:
  "fill_gaps_loop False p ns = Inr r \<Longrightarrow> x \<in> set (p # ns) \<Longrightarrow> hi x \<noteq> None \<Longrightarrow> x \<in> set r"
proof (induction ns arbitrary: p r)
  case Nil
  then show ?case by auto
next
  case (Cons n ns)
  from Cons.prems(1) obtain r' where r': "fill_gaps_loop False n ns = Inr r'"
    and r: "r = p # r' \<and> hi p \<noteq> None \<or> (\<exists>v. r = p\<lparr>hi := Some v\<rparr> # r' \<and> hi p = None)"
    by (auto split: sum.splits if_splits)
  show ?case
  proof (cases "x \<in> set (n # ns)")
    case True
    from Cons.IH[OF r' True Cons.prems(3)] r show ?thesis by auto
  next
    case False
    with Cons.prems(2) have "x = p" by simp
    with Cons.prems(3) r show ?thesis by auto
  qed
qed

lemma fill_gaps_loop_desc_keeps:
  "fill_gaps_loop True p ns = Inr r \<Longrightarrow> x \<in> set (p # ns) \<Longrightarrow> x = p \<or> lo x \<noteq> None \<Longrightarrow> x \<in> set r"
proof (induction ns arbitrary: p r)
  case Nil
  then show ?case by auto
next
  case (Cons n ns)
  from Cons.prems(1) obtain r' n' where r': "fill_gaps_loop True n' ns = Inr r'"
    and r: "r = p # r'" and n': "n' = n \<or> lo n = None"
    by (auto split: sum.splits if_splits)
  show ?case
  proof (cases "x = p")
    case True
    with r show ?thesis by simp
  next
    case False
    with Cons.prems(2,3) have x: "x \<in> set (n # ns)" "lo x \<noteq> None" by auto
    then have "x \<in> set (n' # ns)" "x = n' \<or> lo x \<noteq> None" using n' by auto
    from Cons.IH[OF r' this] r show ?thesis by simp
  qed
qed

lemma blank_in_result_asc:
  assumes "sort_and_check_nodes rnd ns False = Inr out"
    and "sorted_cmp (node_cmp False) ns = Inr srt"
    and "Suc i < length srt" "hi (srt ! i) = Some h" "lo (srt ! Suc i) = Some y" "h + 1 < y"
  shows "BlankRegionNode (rnd (Suc i)) (Some h) (Some y) \<in> set out"
proof -
  from assms(1) obtain nodes1 nodes2 nodes3 where
    s1: "sorted_cmp (node_cmp False) ns = Inr nodes1" and
    c: "check_nodes nodes1 False = Inr nodes2" and
    s2: "sorted_cmp (node_cmp False)
       (nodes2 @ (case nodes2 of [] \<Rightarrow> [] | last_n # rest \<Rightarrow> gap_loop False rnd 1 last_n rest))
     = Inr nodes3" and
    f: "fill_gaps nodes3 False = Inr out"
    by (rule sort_and_check_nodes_stages)
  from s1 assms(2) have [simp]: "nodes1 = srt" by simp
  from check_nodes_Inr[OF c] have n2: "nodes2 = map (\<lambda>n. n\<lparr>checked := True\<rparr>) srt"
    and ok: "\<forall>n \<in> set srt. check_node n False = Inr (n\<lparr>checked := True\<rparr>)" by simp_all
  from assms(3) obtain p rest where pr: "nodes2 = p # rest" by (cases nodes2) (auto simp: n2)
  have len: "Suc i < length (p # rest)" using assms(3) n2 pr by (metis length_map)
  have "srt ! i \<in> set srt" using assms(3) by simp
  with ok assms(4) have "h \<noteq> 0" by (auto simp: check_node_asc)
  moreover have "(p # rest) ! i = (srt ! i)\<lparr>checked := True\<rparr>"
    "(p # rest) ! Suc i = (srt ! Suc i)\<lparr>checked := True\<rparr>"
    using assms(3) by (simp_all flip: pr add: n2)
  then have "hi ((p # rest) ! i) = Some h" "lo ((p # rest) ! Suc i) = Some y"
    using assms(4,5) by simp_all
  ultimately have "gap_at False (rnd (1 + i)) ((p # rest) ! i) ((p # rest) ! Suc i)
      = [BlankRegionNode (rnd (Suc i)) (Some h) (Some y)]"
    using assms(6) by (simp add: gap_at_def py_gt_def)
  with gap_loop_nth[OF len, of False rnd 1]
  have "BlankRegionNode (rnd (Suc i)) (Some h) (Some y) \<in> set (gap_loop False rnd 1 p rest)"
    by simp
  moreover have "mset nodes3 = mset (nodes2 @ gap_loop False rnd 1 p rest)"
    using sorted_cmp_asc[OF s2] pr by simp
  then have "set nodes3 = set (nodes2 @ gap_loop False rnd 1 p rest)"
    by (rule mset_eq_setD)
  ultimately have m: "BlankRegionNode (rnd (Suc i)) (Some h) (Some y) \<in> set nodes3" by simp
  then obtain q qs where q: "nodes3 = q # qs" by (cases nodes3) auto
  with f have "fill_gaps_loop False q qs = Inr out" by (simp add: fill_gaps_def)
  from fill_gaps_loop_asc_keeps[OF this] m q show ?thesis by simp
qed

lemma blank_in_result_desc:
  assumes "sort_and_check_nodes rnd ns True = Inr out"
    and "sorted_cmp (node_cmp True) ns = Inr srt"
    and "Suc i < length srt" "lo (srt ! i) = Some l" "hi (srt ! Suc i) = Some y" "y + 1 < l"
  shows "BlankRegionNode (rnd (Suc i)) (Some y) (Some l) \<in> set out"
proof -
  from assms(1) obtain nodes1 nodes2 nodes3 where
    s1: "sorted_cmp (node_cmp True) ns = Inr nodes1" and
    c: "check_nodes nodes1 True = Inr nodes2" and
    s2: "sorted_cmp (node_cmp True)
       (nodes2 @ (case nodes2 of [] \<Rightarrow> [] | last_n # rest \<Rightarrow> gap_loop True rnd 1 last_n rest))
     = Inr nodes3" and
    f: "fill_gaps nodes3 True = Inr out"
    by (rule sort_and_check_nodes_stages)
  from s1 assms(2) have [simp]: "nodes1 = srt" by simp
  from check_nodes_Inr[OF c] have n2: "nodes2 = map (\<lambda>n. n\<lparr>checked := True\<rparr>) srt"
    and ok: "\<forall>n \<in> set srt. check_node n True = Inr (n\<lparr>checked := True\<rparr>)" by simp_all
  from assms(3) obtain p rest where pr: "nodes2 = p # rest" by (cases nodes2) (auto simp: n2)
  have len: "Suc i < length (p # rest)" using assms(3) n2 pr by (metis length_map)
  have "srt ! Suc i \<in> set srt" using assms(3) by simp
  with ok assms(5) have "0 \<le> y" by (auto simp: check_node_desc)
  with assms(6) have "l \<noteq> 0" by simp
  moreover have "(p # rest) ! i = (srt ! i)\<lparr>checked := True\<rparr>"
    "(p # rest) ! Suc i = (srt ! Suc i)\<lparr>checked := True\<rparr>"
    using assms(3) by (simp_all flip: pr add: n2)
  then have "lo ((p # rest) ! i) = Some l" "hi ((p # rest) ! Suc i) = Some y"
    using assms(4,5) by simp_all
  ultimately have "gap_at True (rnd (1 + i)) ((p # rest) ! i) ((p # rest) ! Suc i)
      = [BlankRegionNode (rnd (Suc i)) (Some y) (Some l)]"
    using assms(6) by (simp add: gap_at_def)
  with gap_loop_nth[OF len, of True rnd 1]
  have "BlankRegionNode (rnd (Suc i)) (Some y) (Some l) \<in> set (gap_loop True rnd 1 p rest)"
    by simp
  moreover have "mset nodes3 = mset (nodes2 @ gap_loop True rnd 1 p rest)"
    using sorted_cmp_desc[OF s2] pr by simp
  then have "set nodes3 = set (nodes2 @ gap_loop True rnd 1 p rest)"
    by (rule mset_eq_setD)
  ultimately have m: "BlankRegionNode (rnd (Suc i)) (Some y) (Some l) \<in> set nodes3" by simp
  then obtain q qs where q: "nodes3 = q # qs" by (cases nodes3) auto
  with f have "fill_gaps_loop True q qs = Inr out" by (simp add: fill_gaps_def)
  from fill_gaps_loop_desc_keeps[OF this] m q show ?thesis by simp
qed

text \<open>
  C4. The regions \<open>[0x0, 0x10)\<close> and \<open>[0x20, 0x30)\<close> resolve in ascending mode to the
  first region, one blank region from \<open>0x10\<close> to \<open>0x20\<close>, and the second region, in
  this order. A blank region has the endpoints it is made with and the kind
  \<open>rempty\<close>. In general, when the resolver returns: for two regions next to each
  other in the sorted input, the first ending at \<open>h\<close> and the second starting at
  \<open>y\<close> more than one address above (ascending), the result holds the blank region
  from \<open>h\<close> to \<open>y\<close>; in descending mode, the first starting at \<open>l\<close> and the second
  ending at \<open>y\<close> more than one address below, the result holds the blank region from
  \<open>y\<close> to \<open>l\<close>.
\<close>

theorem gap_gets_blank_region:
  "sort_and_check_nodes rnd [region_a, region_b] False
     = Inr [region_a\<lparr>checked := True\<rparr>, BlankRegionNode (rnd 1) (Some 16) (Some 32),
            region_b\<lparr>checked := True\<rparr>]
   \<and> lo (BlankRegionNode r u v) = u \<and> hi (BlankRegionNode r u v) = v
   \<and> kind (BlankRegionNode r u v) = ''rempty''
   \<and> (sort_and_check_nodes rnd ns False = Inr out \<and> sorted_cmp (node_cmp False) ns = Inr srt
        \<and> Suc i < length srt \<and> hi (srt ! i) = Some h \<and> lo (srt ! Suc i) = Some y \<and> h + 1 < y
      \<longrightarrow> BlankRegionNode (rnd (Suc i)) (Some h) (Some y) \<in> set out)
   \<and> (sort_and_check_nodes rnd ns' True = Inr out' \<and> sorted_cmp (node_cmp True) ns' = Inr srt'
        \<and> Suc j < length srt' \<and> lo (srt' ! j) = Some l \<and> hi (srt' ! Suc j) = Some y' \<and> y' + 1 < l
      \<longrightarrow> BlankRegionNode (rnd (Suc j)) (Some y') (Some l) \<in> set out')"
proof -
  have "sort_and_check_nodes rnd [region_a, region_b] False
     = Inr [region_a\<lparr>checked := True\<rparr>, BlankRegionNode (rnd 1) (Some 16) (Some 32),
            region_b\<lparr>checked := True\<rparr>]"
    by code_simp
  then show ?thesis
    using blank_in_result_asc[of rnd ns out srt i h y]
      blank_in_result_desc[of rnd ns' out' srt' j l y']
    by simp
qed

theorem gap_gets_blank_region_witness:
  "BlankRegionNode (blank_label (Suc 0)) (Some 16) (Some 32)
     \<in> set [region_a\<lparr>checked := True\<rparr>, BlankRegionNode ''BLANK'' (Some 16) (Some 32),
            region_b\<lparr>checked := True\<rparr>]
   \<and> BlankRegionNode (blank_label (Suc 0)) (Some 16) (Some 40)
     \<in> set [region_d\<lparr>checked := True\<rparr>, BlankRegionNode ''BLANK'' (Some 16) (Some 40),
            region_a\<lparr>checked := True\<rparr>]
   \<and> sort_and_check_nodes blank_label [region_a, region_b] False
     = Inr [region_a\<lparr>checked := True\<rparr>, BlankRegionNode ''BLANK'' (Some 16) (Some 32),
            region_b\<lparr>checked := True\<rparr>]
   \<and> sort_and_check_nodes blank_label [region_d, region_a] True
     = Inr [region_d\<lparr>checked := True\<rparr>, BlankRegionNode ''BLANK'' (Some 16) (Some 40),
            region_a\<lparr>checked := True\<rparr>]"
proof -
  have e1: "sort_and_check_nodes blank_label [region_a, region_b] False
     = Inr [region_a\<lparr>checked := True\<rparr>, BlankRegionNode ''BLANK'' (Some 16) (Some 32),
            region_b\<lparr>checked := True\<rparr>]"
    by code_simp
  have e2: "sort_and_check_nodes blank_label [region_d, region_a] True
     = Inr [region_d\<lparr>checked := True\<rparr>, BlankRegionNode ''BLANK'' (Some 16) (Some 40),
            region_a\<lparr>checked := True\<rparr>]"
    by code_simp
  have s1: "sorted_cmp (node_cmp False) [region_a, region_b] = Inr [region_a, region_b]"
    by code_simp
  have s2: "sorted_cmp (node_cmp True) [region_d, region_a] = Inr [region_d, region_a]"
    by code_simp
  have h: "hi ([region_a, region_b] ! 0) = Some 16" "lo ([region_a, region_b] ! Suc 0) = Some 32"
    "lo ([region_d, region_a] ! 0) = Some 40" "hi ([region_d, region_a] ! Suc 0) = Some 16"
    by (simp_all add: region_a_def region_b_def region_d_def)
  show ?thesis
    using gap_gets_blank_region[of blank_label "''x''" None None "[region_a, region_b]"
        "[region_a\<lparr>checked := True\<rparr>, BlankRegionNode ''BLANK'' (Some 16) (Some 32),
            region_b\<lparr>checked := True\<rparr>]" "[region_a, region_b]" 0 16 32
        "[region_d, region_a]"
        "[region_d\<lparr>checked := True\<rparr>, BlankRegionNode ''BLANK'' (Some 16) (Some 40),
            region_a\<lparr>checked := True\<rparr>]" "[region_d, region_a]" 0 40 16] e1 e2 s1 s2 h
    by (simp add: blank_label_def)
qed

subsection \<open>The pairwise overlap check on an undefined endpoint\<close>

text \<open>
  C2, as the code has it. In ascending mode, when the region that starts lower has no
  \<open>hi\<close> (so the defined endpoints cannot tell whether it reaches into the other
  region) and the other region passes \<open>check_range\<close>, \<open>check_range_overlap\<close> raises
  nothing in either argument order and \<open>compareascend\<close> returns the difference of
  the \<open>lo\<close> values: the pair is taken as disjoint. In descending mode the same holds
  for the region that ends higher and has no \<open>lo\<close>. What the check does raise on,
  whatever is undefined, is a tie: two regions that pass \<open>check_range\<close> and have the
  same \<open>lo\<close> (ascending) or the same \<open>hi\<close> (descending).
\<close>

theorem undefined_trailing_endpoint_accepted:
  "(lo a = Some x \<and> lo b = Some y \<and> x < y \<and> hi a = None \<and> check_range b False = Inr ()
      \<longrightarrow> check_range_overlap a b False = Inr () \<and> check_range_overlap b a False = Inr ()
          \<and> compareascend a b = Inr (x - y) \<and> compareascend b a = Inr (y - x))
   \<and> (hi c = Some u \<and> hi d = Some v \<and> v < u \<and> lo c = None \<and> check_range d True = Inr ()
      \<longrightarrow> check_range_overlap c d True = Inr () \<and> check_range_overlap d c True = Inr ()
          \<and> comparedescend c d = Inr (v - u) \<and> comparedescend d c = Inr (u - v))
   \<and> (check_range e False = Inr () \<and> check_range f False = Inr () \<and> lo e = lo f
      \<longrightarrow> check_range_overlap e f False = Inl (RangesOverlap e f))
   \<and> (check_range g True = Inr () \<and> check_range k True = Inr () \<and> hi g = hi k
      \<longrightarrow> check_range_overlap g k True = Inl (RangesOverlap g k))"
proof -
  have 1: "check_range_overlap a b False = Inr () \<and> check_range_overlap b a False = Inr ()
          \<and> compareascend a b = Inr (x - y) \<and> compareascend b a = Inr (y - x)"
    if "lo a = Some x \<and> lo b = Some y \<and> x < y \<and> hi a = None \<and> check_range b False = Inr ()"
    using that by (auto simp: compareascend_Inr check_range_overlap_asc check_range_asc)
  have 2: "check_range_overlap c d True = Inr () \<and> check_range_overlap d c True = Inr ()
          \<and> comparedescend c d = Inr (v - u) \<and> comparedescend d c = Inr (u - v)"
    if "hi c = Some u \<and> hi d = Some v \<and> v < u \<and> lo c = None \<and> check_range d True = Inr ()"
    using that by (auto simp: comparedescend_Inr check_range_overlap_desc check_range_desc)
  have 3: "check_range_overlap e f False = Inl (RangesOverlap e f)"
    if "check_range e False = Inr () \<and> check_range f False = Inr () \<and> lo e = lo f"
    using that by (simp add: check_range_overlap_def)
  have 4: "check_range_overlap g k True = Inl (RangesOverlap g k)"
    if "check_range g True = Inr () \<and> check_range k True = Inr () \<and> hi g = hi k"
    using that by (simp add: check_range_overlap_def)
  from 1 2 3 4 show ?thesis by blast
qed

theorem undefined_trailing_endpoint_accepted_witness:
  "check_range_overlap region_open region_b False = Inr ()
   \<and> compareascend region_open region_b = Inr (- 32)
   \<and> check_range_overlap region_top region_a True = Inr ()
   \<and> comparedescend region_top region_a = Inr (- 32)
   \<and> check_range_overlap region_open region_a False = Inl (RangesOverlap region_open region_a)
   \<and> check_range_overlap region_top region_d True = Inl (RangesOverlap region_top region_d)"
  using undefined_trailing_endpoint_accepted
    [of region_open 0 region_b 32 region_top 48 region_a 16
        region_open region_a region_top region_d]
  by (simp add: region_open_def region_a_def region_b_def region_top_def region_d_def
        check_range_def py_gt_def)

text \<open>
  C2 as stated fails: one region starts at 0 and has no \<open>hi\<close>, the other is
  \<open>[0x20, 0x30)\<close>; the defined endpoints do not rule out that the first reaches into
  the second, and the check returns without raising.
\<close>

theorem ambiguous_pair_counterexample:
  "lo region_open = Some 0 \<and> hi region_open = None
   \<and> lo region_b = Some 32 \<and> hi region_b = Some 48
   \<and> check_range_overlap region_open region_b False = Inr ()
   \<and> compareascend region_open region_b = Inr (- 32)"
  by (simp add: region_open_def region_b_def compareascend_def check_range_overlap_def
        check_range_def py_gt_def py_le_def)

subsection \<open>Proportional height\<close>

text \<open>
  C7, as the code has it. In non-fixed mode, for a region with both endpoints and a
  non-zero total span, the height is the larger of \<open>minheight\<close> and half of the
  sum of the growth bonus (4 for a region with a growth annotation, 0 otherwise) and
  the proportional value \<open>width / totalSpan * maxHeight\<close>.
\<close>

theorem proportional_height_halved:
  "hi node = Some h \<Longrightarrow> lo node = Some l \<Longrightarrow> memrange \<noteq> 0 \<Longrightarrow>
   populate_template_minheight node memrange maxheight False
     = Inr (max minheight
         (((if grow node then 4 else 0)
            + (real_of_int (h - l) / real_of_int memrange) * maxheight) * (1 / 2)))"
  by (simp add: populate_template_minheight_def calculate_height_def)

theorem proportional_height_halved_witness:
  "populate_template_minheight
      (MemoryMapNode_init [] (Some 0) (Some 16) ''grow up stack'' ''s'' [] 0) 16 20 False
     = Inr 12"
  using proportional_height_halved
    [of "MemoryMapNode_init [] (Some 0) (Some 16) ''grow up stack'' ''s'' [] 0" 16 0 16 20]
  by (simp add: startswith_def minheight_def)

text \<open>
  C7 as stated fails: for the region \<open>[0, 16)\<close> without growth annotation, a total
  span of 16 and a budget of 20, the proportional value floored at \<open>minheight\<close> is
  20, and the code returns 10.
\<close>

theorem proportional_height_counterexample:
  "populate_template_minheight
      (MemoryMapNode_init [] (Some 0) (Some 16) ''regular'' ''r'' [] 0) 16 20 False
     = Inr 10
   \<and> max minheight (real_of_int (16 - 0) / real_of_int 16 * 20 + 0) = 20"
  by (simp add: populate_template_minheight_def calculate_height_def startswith_def minheight_def)

subsection \<open>The growth annotation at construction\<close>

text \<open>
  C8, as the code has it. Constructing a region sets the growth flag exactly when the
  kind string starts with \<open>grow down\<close> or \<open>grow up\<close> followed by a space, and stores
  the kind string as given, prefix included.
\<close>

theorem init_sets_grow_keeps_kind:
  "grow (MemoryMapNode_init rnd l h k lab com num)
     = (startswith k ''grow down '' \<or> startswith k ''grow up '')
   \<and> kind (MemoryMapNode_init rnd l h k lab com num) = k"
  by simp

text \<open>
  C8 as stated fails: after constructing a region of kind \<open>grow up stack\<close> the flag is
  set and the kind is still \<open>grow up stack\<close>, not \<open>stack\<close>; \<open>populate_template\<close>
  later overwrites the kind with the attribute string of the drawing.
\<close>

theorem init_strips_prefix_counterexample:
  "startswith ''grow up stack'' ''grow up ''
   \<and> grow (MemoryMapNode_init [] (Some 0) (Some 16) ''grow up stack'' ''s'' [] 0)
   \<and> kind (MemoryMapNode_init [] (Some 0) (Some 16) ''grow up stack'' ''s'' [] 0) = ''grow up stack''
   \<and> kind (MemoryMapNode_init [] (Some 0) (Some 16) ''grow up stack'' ''s'' [] 0) \<noteq> ''stack''
   \<and> kind (populate_template_kind
        (MemoryMapNode_init [] (Some 0) (Some 16) ''grow up stack'' ''s'' [] 0) False) = '' grow down,''"
  by (simp add: startswith_def populate_template_kind_def)

subsection \<open>Skipped rows and repeated configuration keys\<close>

lemma parse_row_skip:
  "row = [] \<or> strip (hd row) \<notin> {''node'', ''regionlabel'', ''multiregionlabel'', ''config''}
   \<Longrightarrow> parse_row pint rnd p i row = Inr p"
  by (auto simp: parse_row_def)

lemma parse_rows_skip:
  "\<forall>row \<in> set sk. row = [] \<or> strip (hd row) \<notin> {''node'', ''regionlabel'', ''multiregionlabel'', ''config''}
   \<Longrightarrow> parse_rows pint rnd p i (sk @ rows) = parse_rows pint rnd p (i + length sk) rows"
proof (induction sk arbitrary: i)
  case Nil
  then show ?case by simp
next
  case (Cons r sk)
  have "parse_row pint rnd p i r = Inr p"
    using Cons.prems by (intro parse_row_skip) simp
  moreover have "parse_rows pint rnd p (Suc i) (sk @ rows) = parse_rows pint rnd p (Suc i + length sk) rows"
    using Cons.prems by (intro Cons.IH) simp
  ultimately show ?case by simp
qed

lemma parse_rows_append:
  "parse_rows pint rnd p i (xs @ ys) =
     (case parse_rows pint rnd p i xs of Inl e \<Rightarrow> Inl e
      | Inr (p1, i1) \<Rightarrow> parse_rows pint rnd p1 i1 ys)"
  by (induction xs arbitrary: p i) (auto split: sum.splits)

lemma parse_row_config:
  "r \<noteq> [] \<Longrightarrow> strip (hd r) = ''config'' \<Longrightarrow> parse_row pint rnd p i r = Inr p'
   \<Longrightarrow> 1 < length r \<and> config p' = (config p)(strip (r ! 1) \<mapsto> join '','' (drop 2 r))
       \<and> nodes p' = nodes p \<and> labels p' = labels p"
  by (auto simp: parse_row_def MemoryMapConfig_from_csv_def item_def split: sum.splits if_splits)

lemma parse_row_keeps_key:
  "parse_row pint rnd p i r = Inr p' \<Longrightarrow>
   \<not> (r \<noteq> [] \<and> strip (hd r) = ''config'' \<and> 1 < length r \<and> strip (r ! 1) = k)
   \<Longrightarrow> config p' k = config p k"
  by (auto simp: parse_row_def MemoryMapConfig_from_csv_def item_def split: sum.splits if_splits)

lemma parse_rows_keeps_key:
  "parse_rows pint rnd p i rows = Inr (p', j) \<Longrightarrow>
   \<forall>r \<in> set rows. \<not> (r \<noteq> [] \<and> strip (hd r) = ''config'' \<and> 1 < length r \<and> strip (r ! 1) = k)
   \<Longrightarrow> config p' k = config p k"
proof (induction rows arbitrary: p i)
  case Nil
  then show ?case by simp
next
  case (Cons r rows)
  from Cons.prems(1) obtain p1 where p1: "parse_row pint rnd p i r = Inr p1"
    and rest: "parse_rows pint rnd p1 (Suc i) rows = Inr (p', j)"
    by (auto split: sum.splits)
  have "config p1 k = config p k"
    using p1 Cons.prems(2) by (intro parse_row_keeps_key[OF p1]) simp
  moreover have "config p' k = config p1 k"
    using rest Cons.prems(2) by (intro Cons.IH[OF rest]) simp
  ultimately show ?case by simp
qed

text \<open>
  C10. Rows that are empty or whose stripped first column is none of \<open>node\<close>,
  \<open>regionlabel\<close>, \<open>multiregionlabel\<close>, \<open>config\<close> leave the parser as it is and raise
  nothing, and the rows after them are numbered as if they had been read: parsing
  skipped rows followed by \<open>rows\<close> from line \<open>i\<close> is parsing \<open>rows\<close> from line
  \<open>i\<close> plus the number of skipped rows. When the parse succeeds and no row after the
  config row \<open>r\<close> is a config row with the same key, the entry under that key is the
  value of \<open>r\<close>.
\<close>

theorem parse_skips_rows_and_keeps_last_config:
  "((\<forall>row \<in> set sk. row = [] \<or>
        strip (hd row) \<notin> {''node'', ''regionlabel'', ''multiregionlabel'', ''config''})
      \<longrightarrow> (\<forall>row \<in> set sk. parse_row pint rnd p i row = Inr p)
          \<and> parse_rows pint rnd p i (sk @ rows) = parse_rows pint rnd p (i + length sk) rows)
   \<and> (parse_rows pint rnd p i (pre @ r # post) = Inr (p', j)
        \<and> r \<noteq> [] \<and> strip (hd r) = ''config''
        \<and> (\<forall>r' \<in> set post. \<not> (r' \<noteq> [] \<and> strip (hd r') = ''config'' \<and> 1 < length r'
                                 \<and> strip (r' ! 1) = strip (r ! 1)))
      \<longrightarrow> config p' (strip (r ! 1)) = Some (join '','' (drop 2 r)))"
proof (intro conjI impI)
  assume "\<forall>row \<in> set sk. row = [] \<or>
        strip (hd row) \<notin> {''node'', ''regionlabel'', ''multiregionlabel'', ''config''}"
  then show "\<forall>row \<in> set sk. parse_row pint rnd p i row = Inr p"
    and "parse_rows pint rnd p i (sk @ rows) = parse_rows pint rnd p (i + length sk) rows"
    by (auto intro: parse_row_skip parse_rows_skip)
next
  assume h: "parse_rows pint rnd p i (pre @ r # post) = Inr (p', j)
        \<and> r \<noteq> [] \<and> strip (hd r) = ''config''
        \<and> (\<forall>r' \<in> set post. \<not> (r' \<noteq> [] \<and> strip (hd r') = ''config'' \<and> 1 < length r'
                                 \<and> strip (r' ! 1) = strip (r ! 1)))"
  then obtain p1 i1 where a: "parse_rows pint rnd p i pre = Inr (p1, i1)"
    and b: "parse_rows pint rnd p1 i1 (r # post) = Inr (p', j)"
    by (auto simp: parse_rows_append split: sum.splits)
  from b obtain p2 where c: "parse_row pint rnd p1 i1 r = Inr p2"
    and d: "parse_rows pint rnd p2 (Suc i1) post = Inr (p', j)"
    by (auto split: sum.splits)
  have "config p2 (strip (r ! 1)) = Some (join '','' (drop 2 r))"
    using parse_row_config[OF _ _ c] h by simp
  moreover have "config p' (strip (r ! 1)) = config p2 (strip (r ! 1))"
    using h by (intro parse_rows_keeps_key[OF d]) simp
  ultimately show "config p' (strip (r ! 1)) = Some (join '','' (drop 2 r))" by simp
qed

theorem parse_skips_rows_and_keeps_last_config_witness:
  "parse_rows (\<lambda>s. None) (\<lambda>i. []) \<lparr>nodes = [], labels = [], config = Map.empty\<rparr> 0
       ([[], [''# note'']] @ [[''config'', ''height'', ''70'']])
     = parse_rows (\<lambda>s. None) (\<lambda>i. []) \<lparr>nodes = [], labels = [], config = Map.empty\<rparr> 2
         [[''config'', ''height'', ''70'']]
   \<and> parse_rows (\<lambda>s. None) (\<lambda>i. []) \<lparr>nodes = [], labels = [], config = Map.empty\<rparr> 0
       ([[''config'', ''height'', ''70'']] @ [''config'', '' height '', ''20'', ''5''] # [[]])
     = Inr (\<lparr>nodes = [], labels = [], config = [''height'' \<mapsto> ''20,5'']\<rparr>, 3)
   \<and> config \<lparr>nodes = [], labels = [], config = [''height'' \<mapsto> ''20,5'']\<rparr> ''height''
     = Some ''20,5''"
  using parse_skips_rows_and_keeps_last_config
    [of "[[], [''# note'']]" "\<lambda>s. None" "\<lambda>i. []"
        "\<lparr>nodes = [], labels = [], config = Map.empty\<rparr>" 0
        "[[''config'', ''height'', ''70'']]"
        "[[''config'', ''height'', ''70'']]" "[''config'', '' height '', ''20'', ''5'']" "[[]]"
        "\<lparr>nodes = [], labels = [], config = [''height'' \<mapsto> ''20,5'']\<rparr>" 3]
  by (simp add: parse_row_def MemoryMapConfig_from_csv_def item_def strip_def is_space_def)

subsection \<open>Fixed-height mode\<close>

text \<open>
  C9. In fixed-height mode \<open>calculate_height\<close> returns the constant
  \<open>minheight + 0.2\<close> whatever the region (its endpoints, even missing ones, and its
  growth annotation), the total span and the height budget; the height
  \<open>populate_template\<close> computes is that constant too, so the growth bonus it passes
  is never applied.
\<close>

theorem fixed_height_constant:
  "calculate_height node memrange maxheight True additional = Inr (minheight + 2 / 10)
   \<and> populate_template_minheight node memrange maxheight True = Inr (minheight + 2 / 10)"
  by (simp add: calculate_height_def populate_template_minheight_def)

end
